theory Spec2Isabelle
  imports Main "HOL-Library.Word"
begin

unbundle bit_operations_syntax

section \<open>The xv6 physical page allocator with reference counts (kalloc.c)\<close>

text \<open>
  The allocator runs on 32-bit x86: pointers and \<open>uint\<close> are 32-bit words, \<open>int\<close> is a
  32-bit word read as two's complement, and physical memory is an array of bytes indexed
  by address. The free list is intrusive: the link of a free page lives in the first four
  bytes of the page itself, so the embedding keeps the memory as an explicit store.
\<close>

type_synonym addr = "32 word"
type_synonym byte = "8 word"
type_synonym memory = "addr \<Rightarrow> byte"

subsection \<open>Constants of memlayout.h and mmu.h, and the linker symbol\<close>

text \<open>
  Modelled from the spec: memlayout.h and the linker script kernel.ld are not part of
  kalloc.c. The physical memory ceiling \<open>PHYSTOP\<close>, the base \<open>KERNBASE\<close> of the kernel's
  virtual addresses and the first address after the loaded kernel (\<open>end\<close> in the C file)
  are fixed at build time; they are parameters of every function below.
\<close>

record layout =
  KERNBASE :: addr
  PHYSTOP :: addr
  kernel_end :: addr

text \<open>
  Modelled from the spec: mmu.h is not part of kalloc.c. A page has 4096 bytes, and the
  index of a page is its physical address shifted right by the binary logarithm of that.
\<close>

definition PGSIZE :: addr where
  "PGSIZE = 4096"

definition PGSHIFT :: nat where
  "PGSHIFT = 12"

text \<open>
  Modelled from the spec: the macro \<open>PGROUNDUP\<close> of mmu.h rounds an address up to the next
  page boundary.
\<close>

definition PGROUNDUP :: "addr \<Rightarrow> addr" where
  "PGROUNDUP sz = (sz + PGSIZE - 1) AND NOT (PGSIZE - 1)"

text \<open>
  Modelled from the spec: the macro \<open>V2P\<close> of memlayout.h gives the physical address that
  corresponds to a kernel virtual address; the kernel maps physical memory at \<open>KERNBASE\<close>.
\<close>

definition V2P :: "layout \<Rightarrow> addr \<Rightarrow> addr" where
  "V2P L a = a - KERNBASE L"

subsection \<open>The state: \<open>kmem\<close>, \<open>pmem\<close> and the memory\<close>

text \<open>
  \<open>kmem.lock\<close> is left out of the state: \<open>initlock\<close>, \<open>acquire\<close> and \<open>release\<close> belong to
  spinlock.c, and in a run of one thread of control they do not touch the data of the
  allocator. The two \<open>int\<close> fields are 32-bit words; \<open>freemem\<close> reads the counter as a signed
  number. \<open>pmem.refcount\<close> is the table of counts by page index; the C array has
  \<open>PHYSTOP >> PGSHIFT\<close> entries, and \<open>kfree\<close> only reaches an index below that.
\<close>

record kstate =
  use_lock :: "32 word"
  freelist :: addr
  num_free_pages :: "32 word"
  refcount :: "addr \<Rightarrow> 32 word"
  mem :: memory

text \<open>
  \<open>panic\<close> halts the kernel. The outcome of a call is either a return value with the state
  it leaves, or the message of the panic with the state at the moment of the halt.
\<close>

datatype 'a outcome = Returns 'a kstate | Panics string kstate

subsection \<open>Memory accesses\<close>

text \<open>
  Modelled from the spec: \<open>memset\<close> belongs to string.c, which is not part of kalloc.c.
  \<open>memset m dst c n\<close> is the memory \<open>m\<close> with the \<open>n\<close> bytes from \<open>dst\<close> on set to \<open>c\<close>.
\<close>

definition memset :: "memory \<Rightarrow> addr \<Rightarrow> byte \<Rightarrow> addr \<Rightarrow> memory" where
  "memset m dst c n = (\<lambda>a. if a - dst < n then c else m a)"

text \<open>The field \<open>next\<close> of a \<open>struct run\<close> at address \<open>a\<close>: four bytes, little-endian.\<close>

definition store_next :: "memory \<Rightarrow> addr \<Rightarrow> addr \<Rightarrow> memory" where
  "store_next m a w =
     m(a := ucast w,
       a + 1 := ucast (drop_bit 8 w),
       a + 2 := ucast (drop_bit 16 w),
       a + 3 := ucast (drop_bit 24 w))"

definition load_next :: "memory \<Rightarrow> addr \<Rightarrow> addr" where
  "load_next m a =
     ucast (m a) OR push_bit 8 (ucast (m (a + 1)))
       OR push_bit 16 (ucast (m (a + 2))) OR push_bit 24 (ucast (m (a + 3)))"

subsection \<open>kfree\<close>

definition kfree :: "layout \<Rightarrow> kstate \<Rightarrow> addr \<Rightarrow> unit outcome" where
  "kfree L s v =
     (if v mod PGSIZE \<noteq> 0 \<or> v < kernel_end L \<or> PHYSTOP L \<le> V2P L v
      then Panics ''kfree'' s
      else
        let pa = V2P L v; idx = drop_bit PGSHIFT pa in
        if use_lock s = 0 then
          Returns ()
            (s\<lparr>mem := store_next (memset (mem s) v 1 PGSIZE) v (freelist s),
               freelist := v,
               num_free_pages := num_free_pages s + 1\<rparr>)
        else if refcount s idx = 0 then Panics ''kfree: refcount underflow'' s
        else
          let s1 = s\<lparr>refcount := (refcount s)(idx := refcount s idx - 1)\<rparr> in
          if 0 < refcount s1 idx then Returns () s1
          else
            Returns ()
              (s1\<lparr>mem := store_next (memset (mem s1) v 1 PGSIZE) v (freelist s1),
                  freelist := v,
                  num_free_pages := num_free_pages s1 + 1\<rparr>))"

subsection \<open>kalloc\<close>

definition kalloc :: "layout \<Rightarrow> kstate \<Rightarrow> addr outcome" where
  "kalloc L s =
     (let r = freelist s in
      if r \<noteq> 0 then
        Returns r
          (s\<lparr>freelist := load_next (mem s) r,
             num_free_pages := num_free_pages s - 1,
             refcount := (refcount s)(drop_bit PGSHIFT (V2P L r) := 1)\<rparr>)
      else Returns r s)"

subsection \<open>freemem and the accessors of the table\<close>

definition freemem :: "kstate \<Rightarrow> int" where
  "freemem s = sint (num_free_pages s)"

definition get_refcount :: "kstate \<Rightarrow> addr \<Rightarrow> 32 word" where
  "get_refcount s pa = refcount s (drop_bit PGSHIFT pa)"

definition inc_refcount :: "kstate \<Rightarrow> addr \<Rightarrow> kstate" where
  "inc_refcount s pa =
     s\<lparr>refcount := (refcount s)(drop_bit PGSHIFT pa := refcount s (drop_bit PGSHIFT pa) + 1)\<rparr>"

definition dec_refcount :: "kstate \<Rightarrow> addr \<Rightarrow> kstate" where
  "dec_refcount s pa =
     s\<lparr>refcount := (refcount s)(drop_bit PGSHIFT pa := refcount s (drop_bit PGSHIFT pa) - 1)\<rparr>"

subsection \<open>freerange, kinit1 and kinit2\<close>

text \<open>
  The loop of \<open>freerange\<close> advances a 32-bit pointer, which can wrap around, so the loop
  need not end: \<open>None\<close> stands for a run that never returns. A panic inside \<open>kfree\<close> ends
  the run.
\<close>

partial_function (option) freerange_loop ::
  "layout \<Rightarrow> kstate \<Rightarrow> addr \<Rightarrow> addr \<Rightarrow> unit outcome option" where
  "freerange_loop L s p vend =
     (if p + PGSIZE \<le> vend then
        (case kfree L s p of
           Panics msg t \<Rightarrow> Some (Panics msg t)
         | Returns u s' \<Rightarrow> freerange_loop L s' (p + PGSIZE) vend)
      else Some (Returns () s))"

definition freerange :: "layout \<Rightarrow> kstate \<Rightarrow> addr \<Rightarrow> addr \<Rightarrow> unit outcome option" where
  "freerange L s vstart vend = freerange_loop L s (PGROUNDUP vstart) vend"

definition kinit1 :: "layout \<Rightarrow> kstate \<Rightarrow> addr \<Rightarrow> addr \<Rightarrow> unit outcome option" where
  "kinit1 L s vstart vend = freerange L (s\<lparr>use_lock := 0\<rparr>) vstart vend"

definition kinit2 :: "layout \<Rightarrow> kstate \<Rightarrow> addr \<Rightarrow> addr \<Rightarrow> unit outcome option" where
  "kinit2 L s vstart vend =
     (case freerange L s vstart vend of
        None \<Rightarrow> None
      | Some (Panics msg t) \<Rightarrow> Some (Panics msg t)
      | Some (Returns u s1) \<Rightarrow>
          Some (Returns ()
            (s1\<lparr>use_lock := 1,
                refcount := (\<lambda>i. if i < drop_bit PGSHIFT (PHYSTOP L) then 0 else refcount s1 i)\<rparr>)))"


subsection \<open>Vocabulary of the properties\<close>

text \<open>The three conditions under which \<open>kfree\<close> accepts an address.\<close>

definition valid_page :: "layout \<Rightarrow> addr \<Rightarrow> bool" where
  "valid_page L v \<longleftrightarrow> v mod PGSIZE = 0 \<and> kernel_end L \<le> v \<and> V2P L v < PHYSTOP L"

definition page_index :: "layout \<Rightarrow> addr \<Rightarrow> addr" where
  "page_index L v = drop_bit PGSHIFT (V2P L v)"

text \<open>The effect shared by both freeing branches of \<open>kfree\<close>: poison, link, count.\<close>

definition push_page :: "kstate \<Rightarrow> addr \<Rightarrow> kstate" where
  "push_page s v =
     s\<lparr>mem := store_next (memset (mem s) v 1 PGSIZE) v (freelist s),
       freelist := v,
       num_free_pages := num_free_pages s + 1\<rparr>"

text \<open>
  The free list as the code walks it: \<open>chain m p xs\<close> holds when following the \<open>next\<close>
  fields from \<open>p\<close> visits exactly the pages \<open>xs\<close> and then reaches the null pointer.
\<close>

fun chain :: "memory \<Rightarrow> addr \<Rightarrow> addr list \<Rightarrow> bool" where
  "chain m p [] = (p = 0)"
| "chain m p (x # xs) = (p \<noteq> 0 \<and> x = p \<and> chain m (load_next m p) xs)"

fun chain_of_length :: "memory \<Rightarrow> addr \<Rightarrow> nat \<Rightarrow> bool" where
  "chain_of_length m p 0 = (p = 0)"
| "chain_of_length m p (Suc n) = (p \<noteq> 0 \<and> chain_of_length m (load_next m p) n)"

definition counter_consistent :: "kstate \<Rightarrow> bool" where
  "counter_consistent s \<longleftrightarrow>
     0 \<le> freemem s \<and> chain_of_length (mem s) (freelist s) (nat (freemem s))"

text \<open>
  The statically allocated \<open>kmem\<close> and \<open>pmem\<close> start zeroed; the contents of the memory at
  boot are arbitrary.
\<close>

definition boot_state :: "memory \<Rightarrow> kstate" where
  "boot_state m =
     \<lparr>use_lock = 0, freelist = 0, num_free_pages = 0, refcount = (\<lambda>_. 0), mem = m\<rparr>"

text \<open>
  The states the allocator can be in: from boot, by any sequence of calls of the functions
  of the file that return. Of these only \<open>kfree\<close> writes to the memory. The rest of the
  kernel writes to the memory as well; while the free list is a null-terminated chain, it
  leaves the \<open>next\<close> field of every page on it alone.
\<close>

inductive reachable :: "layout \<Rightarrow> kstate \<Rightarrow> bool" for L :: layout where
  reach_boot: "reachable L (boot_state m)"
| reach_kinit1: "reachable L s \<Longrightarrow> kinit1 L s a b = Some (Returns () s') \<Longrightarrow> reachable L s'"
| reach_kinit2: "reachable L s \<Longrightarrow> kinit2 L s a b = Some (Returns () s') \<Longrightarrow> reachable L s'"
| reach_kalloc: "reachable L s \<Longrightarrow> kalloc L s = Returns r s' \<Longrightarrow> reachable L s'"
| reach_kfree: "reachable L s \<Longrightarrow> kfree L s v = Returns () s' \<Longrightarrow> reachable L s'"
| reach_inc: "reachable L s \<Longrightarrow> reachable L (inc_refcount s pa)"
| reach_dec: "reachable L s \<Longrightarrow> reachable L (dec_refcount s pa)"
| reach_write: "reachable L s \<Longrightarrow> chain (mem s) (freelist s) xs \<Longrightarrow>
    \<forall>x\<in>set xs. load_next m' x = load_next (mem s) x \<Longrightarrow> reachable L (s\<lparr>mem := m'\<rparr>)"

text \<open>Calling \<open>kalloc\<close> a number of times in a row, collecting what it returns.\<close>

fun kalloc_times :: "layout \<Rightarrow> kstate \<Rightarrow> nat \<Rightarrow> addr list \<times> kstate" where
  "kalloc_times L s 0 = ([], s)"
| "kalloc_times L s (Suc n) =
     (case kalloc L s of
        Panics msg t \<Rightarrow> ([], t)
      | Returns r s' \<Rightarrow> (case kalloc_times L s' n of (rs, t) \<Rightarrow> (r # rs, t)))"

text \<open>
  \<open>links_ok L s F\<close>: the head of the free list and the \<open>next\<close> field of every page of \<open>F\<close>
  are null or a page of \<open>F\<close>, and every page of \<open>F\<close> has passed the check of \<open>kfree\<close>.
\<close>

definition links_ok :: "layout \<Rightarrow> kstate \<Rightarrow> addr set \<Rightarrow> bool" where
  "links_ok L s F \<longleftrightarrow>
     (freelist s = 0 \<or> freelist s \<in> F) \<and>
     (\<forall>p\<in>F. valid_page L p \<and> (load_next (mem s) p = 0 \<or> load_next (mem s) p \<in> F))"

text \<open>
  \<open>free_inv L s xs\<close>: locking is on, the free list is the null-terminated chain \<open>xs\<close> of
  pages that passed the check of \<open>kfree\<close>, each with reference count 0, and \<open>freemem\<close>
  is the length of \<open>xs\<close>.
\<close>

definition free_inv :: "layout \<Rightarrow> kstate \<Rightarrow> addr list \<Rightarrow> bool" where
  "free_inv L s xs \<longleftrightarrow>
     use_lock s \<noteq> 0 \<and> chain (mem s) (freelist s) xs \<and>
     (\<forall>x\<in>set xs. valid_page L x \<and> refcount s (page_index L x) = 0) \<and>
     freemem s = int (length xs)"

text \<open>
  Seeding as the spec words it, to compare \<open>freerange\<close> with: push \<open>n\<close> pages in a row,
  starting at \<open>p\<close>, each through the unlocked free path, which checks the address, poisons
  the page, links it and counts it, and reads no reference count.
\<close>

fun seed_pages :: "layout \<Rightarrow> kstate \<Rightarrow> addr \<Rightarrow> nat \<Rightarrow> unit outcome" where
  "seed_pages L s p 0 = Returns () s"
| "seed_pages L s p (Suc n) =
     (if valid_page L p then seed_pages L (push_page s p) (p + PGSIZE) n
      else Panics ''kfree'' s)"

text \<open>The number of whole pages between two addresses.\<close>

definition pages_between :: "addr \<Rightarrow> addr \<Rightarrow> nat" where
  "pages_between p e = (unat e - unat p) div 4096"

fun state_of :: "'a outcome \<Rightarrow> kstate" where
  "state_of (Returns r s) = s"
| "state_of (Panics msg s) = s"

text \<open>The addresses of \<open>n\<close> pages in a row, starting at \<open>p\<close>.\<close>

fun page_run :: "addr \<Rightarrow> nat \<Rightarrow> addr list" where
  "page_run p 0 = []"
| "page_run p (Suc n) = p # page_run (p + PGSIZE) n"

subsection \<open>A concrete boot\<close>

text \<open>
  The memory layout of stock xv6 with a kernel image that ends at \<open>0x801154a8\<close>, a memory
  of zeros, and a boot that seeds two pages in phase 1 and one page in phase 2.
\<close>

definition xv6_layout :: layout where
  "xv6_layout = \<lparr>KERNBASE = 0x80000000, PHYSTOP = 0xE000000, kernel_end = 0x801154a8\<rparr>"

definition demo_mem1 :: memory where
  "demo_mem1 =
     store_next (memset
       (store_next (memset (\<lambda>_. 0) 0x80116000 1 PGSIZE) 0x80116000 0)
       0x80117000 1 PGSIZE) 0x80117000 0x80116000"

definition demo_mem :: memory where
  "demo_mem = store_next (memset demo_mem1 0x80400000 1 PGSIZE) 0x80400000 0x80117000"

definition demo_phase1 :: kstate where
  "demo_phase1 =
     \<lparr>use_lock = 0, freelist = 0x80117000, num_free_pages = 2, refcount = (\<lambda>_. 0),
      mem = demo_mem1\<rparr>"

definition demo_boot :: kstate where
  "demo_boot =
     \<lparr>use_lock = 1, freelist = 0x80400000, num_free_pages = 3, refcount = (\<lambda>_. 0),
      mem = demo_mem\<rparr>"

text \<open>The state after one \<open>kalloc\<close>, and after the page it returned got a second owner.\<close>

definition demo_owned :: kstate where
  "demo_owned =
     \<lparr>use_lock = 1, freelist = 0x80117000, num_free_pages = 2,
      refcount = (\<lambda>_. 0)(0x400 := 1), mem = demo_mem\<rparr>"

definition demo_shared :: kstate where
  "demo_shared = inc_refcount demo_owned 0x400000"

text \<open>
  The state after \<open>inc_refcount\<close> on the physical address of the head of the free list of
  \<open>demo_boot\<close>, followed by \<open>kfree\<close> of that page.
\<close>

definition demo_broken :: kstate where
  "demo_broken =
     \<lparr>use_lock = 1, freelist = 0x80400000, num_free_pages = 4,
      refcount = (\<lambda>_. 0)(0x400 := 0),
      mem = store_next (memset demo_mem 0x80400000 1 PGSIZE) 0x80400000 0x80400000\<rparr>"

text \<open>
  Between the two phases of the boot: the state after one \<open>kalloc\<close> from \<open>demo_phase1\<close>,
  and after the page it returned got a second owner.
\<close>

definition demo_early_owned :: kstate where
  "demo_early_owned =
     \<lparr>use_lock = 0, freelist = 0x80116000, num_free_pages = 1,
      refcount = (\<lambda>_. 0)(0x117 := 1), mem = demo_mem1\<rparr>"

definition demo_early_shared :: kstate where
  "demo_early_shared = inc_refcount demo_early_owned 0x117000"

section \<open>Words and bytes\<close>

lemma aligned_unat: "((v::addr) mod 4096 = 0) = (unat v mod 4096 = 0)"
proof -
  have "(v mod 4096 = 0) = (unat (v mod 4096) = 0)" by (simp add: unat_eq_zero)
  also have "unat (v mod 4096) = unat v mod 4096" by (simp add: unat_mod)
  finally show ?thesis .
qed

lemma unat_bound32: "unat (v::addr) < 4294967296"
proof -
  have "unat v < 2 ^ LENGTH(32)" by (rule unsigned_less)
  then show ?thesis by simp
qed

lemma aligned_mult:
  assumes "(v::addr) mod PGSIZE = 0"
  shows "\<exists>k. unat v = 4096 * k \<and> k < 1048576"
proof -
  from assms have "unat v mod 4096 = 0" by (simp add: aligned_unat PGSIZE_def)
  then obtain k where k: "unat v = 4096 * k" by (auto simp: mod_eq_0_iff_dvd)
  have "unat v < 4294967296" by (rule unat_bound32)
  with k have "k < 1048576" by simp
  with k show ?thesis by blast
qed

lemma pages_apart:
  fixes a b i :: addr
  assumes "a mod PGSIZE = 0" "b mod PGSIZE = 0" "a \<noteq> b" "i < 4"
  shows "PGSIZE \<le> b + i - a"
proof -
  obtain ka where A: "unat a = 4096 * ka" "ka < 1048576"
    using aligned_mult [OF assms(1)] by blast
  obtain kb where B: "unat b = 4096 * kb" "kb < 1048576"
    using aligned_mult [OF assms(2)] by blast
  have ne: "ka \<noteq> kb" using assms(3) A B by (auto simp add: word_unat_eq_iff)
  have I: "unat i < 4" using assms(4) by (simp add: word_less_nat_alt)
  have bi: "unat (b + i) = 4096 * kb + unat i"
    using B I by (simp add: unat_plus_if_size word_size)
  have "4096 \<le> unat (b + i - a)"
    using A ne I B by (simp add: unat_sub_if_size word_size bi) arith
  then show ?thesis by (simp add: word_le_nat_alt PGSIZE_def)
qed

lemma load_store_same: "load_next (store_next m a w) a = w"
  apply (simp add: load_next_def store_next_def)
  apply (rule bit_word_eqI)
  apply (auto simp add: bit_simps)
  subgoal for n by (cases "n < 24") auto
  done

lemma load_next_cong:
  "m' b = m b \<Longrightarrow> m' (b + 1) = m (b + 1) \<Longrightarrow> m' (b + 2) = m (b + 2) \<Longrightarrow> m' (b + 3) = m (b + 3)
   \<Longrightarrow> load_next m' b = load_next m b"
  by (simp add: load_next_def)

lemma byte_other_page:
  fixes a b i :: addr
  assumes "a mod PGSIZE = 0" "b mod PGSIZE = 0" "a \<noteq> b" "i < 4"
  shows "store_next (memset m a c PGSIZE) a w (b + i) = m (b + i)"
proof -
  have far: "PGSIZE \<le> b + i - a" using assms by (rule pages_apart)
  have ne: "b + i \<noteq> a + j" if "j < 4" for j
  proof
    assume "b + i = a + j"
    then have "b + i - a = j" by simp
    with far that show False
      by (simp add: PGSIZE_def word_le_nat_alt word_less_nat_alt)
  qed
  have "b + i \<noteq> a" using ne [of 0] by simp
  moreover have "b + i \<noteq> a + 1" using ne [of 1] by simp
  moreover have "b + i \<noteq> a + 2" using ne [of 2] by simp
  moreover have "b + i \<noteq> a + 3" using ne [of 3] by simp
  moreover have "\<not> b + i - a < PGSIZE" using far by (simp add: not_less)
  ultimately show ?thesis by (simp add: store_next_def memset_def)
qed

lemma load_other_page:
  assumes "a mod PGSIZE = 0" "b mod PGSIZE = 0" "a \<noteq> b"
  shows "load_next (store_next (memset m a c PGSIZE) a w) b = load_next m b"
proof (rule load_next_cong)
  show "store_next (memset m a c PGSIZE) a w b = m b"
    using byte_other_page [OF assms, of 0] by simp
  show "store_next (memset m a c PGSIZE) a w (b + 1) = m (b + 1)"
    using byte_other_page [OF assms, of 1] by simp
  show "store_next (memset m a c PGSIZE) a w (b + 2) = m (b + 2)"
    using byte_other_page [OF assms, of 2] by simp
  show "store_next (memset m a c PGSIZE) a w (b + 3) = m (b + 3)"
    using byte_other_page [OF assms, of 3] by simp
qed

section \<open>The branches of kfree\<close>

lemma kfree_invalid: "\<not> valid_page L v \<Longrightarrow> kfree L s v = Panics ''kfree'' s"
  by (auto simp add: kfree_def valid_page_def not_le not_less)

lemma kfree_boot:
  "valid_page L v \<Longrightarrow> use_lock s = 0 \<Longrightarrow> kfree L s v = Returns () (push_page s v)"
  by (auto simp add: kfree_def valid_page_def not_le not_less Let_def push_page_def)

lemma kfree_zero:
  "valid_page L v \<Longrightarrow> use_lock s \<noteq> 0 \<Longrightarrow> refcount s (page_index L v) = 0 \<Longrightarrow>
   kfree L s v = Panics ''kfree: refcount underflow'' s"
  by (auto simp add: kfree_def valid_page_def not_le not_less Let_def page_index_def)

lemma kfree_shared:
  "valid_page L v \<Longrightarrow> use_lock s \<noteq> 0 \<Longrightarrow> 1 < refcount s (page_index L v) \<Longrightarrow>
   kfree L s v =
     Returns () (s\<lparr>refcount := (refcount s)(page_index L v := refcount s (page_index L v) - 1)\<rparr>)"
  by (auto simp add: kfree_def valid_page_def not_le not_less Let_def page_index_def)

lemma kfree_last:
  "valid_page L v \<Longrightarrow> use_lock s \<noteq> 0 \<Longrightarrow> refcount s (page_index L v) = 1 \<Longrightarrow>
   kfree L s v = Returns () (push_page (s\<lparr>refcount := (refcount s)(page_index L v := 0)\<rparr>) v)"
  by (auto simp add: kfree_def valid_page_def not_le not_less Let_def page_index_def push_page_def)

lemma word_cases_0_1:
  fixes c :: "32 word"
  obtains "c = 0" | "c = 1" | "1 < c"
proof -
  have "unat c = 0 \<or> unat c = 1 \<or> 1 < unat c" by arith
  then have "c = 0 \<or> c = 1 \<or> 1 < c"
    by (auto simp add: word_less_nat_alt word_unat_eq_iff)
  then show ?thesis using that by blast
qed

text \<open>Every return of \<open>kfree\<close> is one of three: a push, a last-owner push, a bare decrement.\<close>

lemma kfree_Returns_cases:
  assumes "kfree L s v = Returns u s'"
  obtains
    (boot) "valid_page L v" "use_lock s = 0" "s' = push_page s v"
  | (last) "valid_page L v" "use_lock s \<noteq> 0" "refcount s (page_index L v) = 1"
      "s' = push_page (s\<lparr>refcount := (refcount s)(page_index L v := 0)\<rparr>) v"
  | (shared) "valid_page L v" "use_lock s \<noteq> 0" "1 < refcount s (page_index L v)"
      "s' = s\<lparr>refcount := (refcount s)(page_index L v := refcount s (page_index L v) - 1)\<rparr>"
proof -
  have v: "valid_page L v" using assms kfree_invalid [of L v s] by auto
  show ?thesis
  proof (cases "use_lock s = 0")
    case True
    with v assms boot show ?thesis by (simp add: kfree_boot)
  next
    case False
    show ?thesis
    proof (cases "refcount s (page_index L v)" rule: word_cases_0_1)
      case 1
      with v False assms show ?thesis by (simp add: kfree_zero)
    next
      case 2
      with v False assms last show ?thesis by (simp add: kfree_last)
    next
      case 3
      with v False assms shared show ?thesis by (simp add: kfree_shared)
    qed
  qed
qed

lemma push_page_simps:
  "freelist (push_page s v) = v"
  "num_free_pages (push_page s v) = num_free_pages s + 1"
  "use_lock (push_page s v) = use_lock s"
  "refcount (push_page s v) = refcount s"
  "mem (push_page s v) = store_next (memset (mem s) v 1 PGSIZE) v (freelist s)"
  by (simp_all add: push_page_def)

lemma load_push_same: "load_next (mem (push_page s v)) v = freelist s"
  by (simp add: push_page_simps load_store_same)

lemma load_push_other:
  "v mod PGSIZE = 0 \<Longrightarrow> b mod PGSIZE = 0 \<Longrightarrow> v \<noteq> b \<Longrightarrow>
   load_next (mem (push_page s v)) b = load_next (mem s) b"
  by (simp add: push_page_simps load_other_page)

section \<open>Chains\<close>

lemma chain_unique: "chain m p xs \<Longrightarrow> chain m p ys \<Longrightarrow> xs = ys"
proof (induction xs arbitrary: p ys)
  case Nil
  then show ?case by (cases ys) auto
next
  case (Cons x xs)
  then show ?case by (cases ys) auto
qed

lemma chain_suffix: "chain m p (as @ y # bs) \<Longrightarrow> chain m y (y # bs)"
  by (induction as arbitrary: p) auto

lemma chain_distinct: "chain m p xs \<Longrightarrow> distinct xs"
proof (induction xs arbitrary: p)
  case Nil
  then show ?case by simp
next
  case (Cons x xs)
  have "x \<notin> set xs"
  proof
    assume "x \<in> set xs"
    then obtain as bs where xs: "xs = as @ x # bs" by (auto simp: in_set_conv_decomp)
    from Cons.prems have c1: "chain m x (x # xs)" by simp
    from Cons.prems have "chain m (load_next m x) xs" by auto
    with xs have "chain m (load_next m x) (as @ x # bs)" by simp
    then have "chain m x (x # bs)" by (rule chain_suffix)
    with c1 have "x # xs = x # bs" by (rule chain_unique)
    with xs show False by simp
  qed
  moreover from Cons have "distinct xs" by auto
  ultimately show ?case by simp
qed

lemma chain_nonzero: "chain m p xs \<Longrightarrow> 0 \<notin> set xs"
  by (induction xs arbitrary: p) auto

lemma chain_frame:
  "(\<And>x. x \<in> set xs \<Longrightarrow> load_next m' x = load_next m x) \<Longrightarrow> chain m' p xs = chain m p xs"
  by (induction xs arbitrary: p) auto

lemma chain_of_length_iff: "chain_of_length m p n = (\<exists>xs. chain m p xs \<and> length xs = n)"
proof (induction n arbitrary: p)
  case 0
  then show ?case by auto
next
  case (Suc n)
  show ?case
  proof
    assume "chain_of_length m p (Suc n)"
    with Suc obtain xs where "p \<noteq> 0" "chain m (load_next m p) xs" "length xs = n" by auto
    then have "chain m p (p # xs) \<and> length (p # xs) = Suc n" by simp
    then show "\<exists>xs. chain m p xs \<and> length xs = Suc n" by blast
  next
    assume "\<exists>xs. chain m p xs \<and> length xs = Suc n"
    then obtain xs where xs: "chain m p xs" "length xs = Suc n" by blast
    then obtain y ys where "xs = y # ys" by (cases xs) auto
    with xs Suc show "chain_of_length m p (Suc n)" by auto
  qed
qed

lemma chain_head: "chain m p xs \<Longrightarrow> p = 0 \<or> p \<in> set xs"
  by (cases xs) auto

lemma chain_next: "chain m p xs \<Longrightarrow> x \<in> set xs \<Longrightarrow> load_next m x = 0 \<or> load_next m x \<in> set xs"
proof (induction xs arbitrary: p)
  case Nil
  then show ?case by simp
next
  case (Cons y ys)
  from Cons.prems(1) have c: "chain m (load_next m y) ys" by auto
  show ?case
  proof (cases "x = y")
    case True
    with chain_head [OF c] show ?thesis by auto
  next
    case False
    with Cons.prems(2) have "x \<in> set ys" by simp
    with Cons.IH [OF c] show ?thesis by auto
  qed
qed

lemma chain_push:
  assumes "chain (mem s) (freelist s) xs" "v \<noteq> 0" "v mod PGSIZE = 0" "v \<notin> set xs"
    and "\<And>x. x \<in> set xs \<Longrightarrow> x mod PGSIZE = 0"
  shows "chain (mem (push_page s v)) (freelist (push_page s v)) (v # xs)"
proof -
  have "chain (mem (push_page s v)) (freelist s) xs = chain (mem s) (freelist s) xs"
  proof (rule chain_frame)
    fix x assume "x \<in> set xs"
    with assms show "load_next (mem (push_page s v)) x = load_next (mem s) x"
      by (intro load_push_other) auto
  qed
  with assms(1,2) show ?thesis by (simp add: load_push_same push_page_simps(1))
qed


section \<open>The loop of freerange\<close>

lemma kfree_Panics_state: "kfree L s v = Panics msg t \<Longrightarrow> t = s"
  by (auto simp add: kfree_def Let_def split: if_splits)

lemma freerange_loop_outcome:
  assumes step: "\<And>s v s'. P s \<Longrightarrow> kfree L s v = Returns () s' \<Longrightarrow> P s'"
    and run: "freerange_loop L s p e = Some y"
    and start: "P s"
  shows "P (state_of y)"
proof -
  define Q where
    "Q = (\<lambda>L' s (p::addr) (e::addr) (y::unit outcome). L' = L \<longrightarrow> P s \<longrightarrow> P (state_of y))"
  have "Q L s p e y"
  proof (rule freerange_loop.raw_induct [where P = Q, OF _ run])
    fix loop L' s p e y
    assume IH: "\<And>L s p e y. loop L s p e = Some y \<Longrightarrow> Q L s p e y"
      and eq: "(if p + PGSIZE \<le> e
                then case kfree L' s p of
                       Returns u s' \<Rightarrow> loop L' s' (p + PGSIZE) e
                     | Panics msg t \<Rightarrow> Some (Panics msg t)
                else Some (Returns () s)) = Some y"
    show "Q L' s p e y"
      unfolding Q_def
    proof (intro impI)
      assume L': "L' = L" and P: "P s"
      show "P (state_of y)"
      proof (cases "p + PGSIZE \<le> e")
        case False
        with eq P show ?thesis by auto
      next
        case True
        show ?thesis
        proof (cases "kfree L' s p")
          case (Panics msg u)
          then have "u = s" by (rule kfree_Panics_state)
          moreover from Panics True eq have "y = Panics msg u" by simp
          ultimately show ?thesis using P by simp
        next
          case (Returns u s')
          with True eq have rec: "loop L' s' (p + PGSIZE) e = Some y" by simp
          from Returns L' have "kfree L s p = Returns () s'" by simp
          with P have "P s'" by (rule step)
          with IH [OF rec] L' show ?thesis by (simp add: Q_def)
        qed
      qed
    qed
  qed
  with start show ?thesis by (simp add: Q_def)
qed

lemma freerange_loop_preserves:
  assumes step: "\<And>s v s'. P s \<Longrightarrow> kfree L s v = Returns () s' \<Longrightarrow> P s'"
    and run: "freerange_loop L s p e = Some (Returns () t)"
    and start: "P s"
  shows "P t"
  using freerange_loop_outcome [of P L s p e "Returns () t", OF step run start] by simp

lemma kinit1_preserves:
  assumes step: "\<And>s v s'. P s \<Longrightarrow> kfree L s v = Returns () s' \<Longrightarrow> P s'"
    and run: "kinit1 L s a b = Some (Returns () t)"
    and start: "P (s\<lparr>use_lock := 0\<rparr>)"
  shows "P t"
  using run start freerange_loop_preserves [of P L, OF step]
  by (auto simp add: kinit1_def freerange_def)

lemma kinit2_Returns:
  assumes "kinit2 L s a b = Some (Returns u t)"
  obtains s1 where "freerange L s a b = Some (Returns () s1)"
    and "t = s1\<lparr>use_lock := 1,
      refcount := (\<lambda>i. if i < drop_bit PGSHIFT (PHYSTOP L) then 0 else refcount s1 i)\<rparr>"
  using assms by (auto simp add: kinit2_def split: option.splits outcome.splits)

section \<open>Pages of the free list have passed the check of kfree\<close>

lemma links_ok_fields:
  "links_ok L (s\<lparr>use_lock := u\<rparr>) F = links_ok L s F"
  "links_ok L (s\<lparr>refcount := rc\<rparr>) F = links_ok L s F"
  "links_ok L (s\<lparr>num_free_pages := n\<rparr>) F = links_ok L s F"
  by (simp_all add: links_ok_def)

lemma links_ok_push:
  assumes ok: "links_ok L s F" and v: "valid_page L v"
  shows "links_ok L (push_page s v) (insert v F)"
proof -
  have al: "v mod PGSIZE = 0" using v by (simp add: valid_page_def)
  have "valid_page L p \<and>
        (load_next (mem (push_page s v)) p = 0 \<or> load_next (mem (push_page s v)) p \<in> insert v F)"
    if "p \<in> insert v F" for p
  proof (cases "p = v")
    case True
    with ok v show ?thesis by (auto simp add: load_push_same links_ok_def)
  next
    case False
    with that have pF: "p \<in> F" by simp
    with ok have "valid_page L p" by (simp add: links_ok_def)
    then have "p mod PGSIZE = 0" by (simp add: valid_page_def)
    with al False have "load_next (mem (push_page s v)) p = load_next (mem s) p"
      by (intro load_push_other) auto
    with ok pF show ?thesis by (auto simp add: links_ok_def)
  qed
  then show ?thesis by (simp add: links_ok_def push_page_simps)
qed

lemma links_ok_kfree:
  assumes "\<exists>F. links_ok L s F" and "kfree L s v = Returns u s'"
  shows "\<exists>F. links_ok L s' F"
  using assms(2)
proof (cases rule: kfree_Returns_cases)
  case boot
  with assms(1) links_ok_push show ?thesis by blast
next
  case last
  from assms(1) obtain F where "links_ok L s F" by blast
  then have "links_ok L (s\<lparr>refcount := (refcount s)(page_index L v := 0)\<rparr>) F"
    by (simp add: links_ok_fields)
  with last links_ok_push show ?thesis by blast
next
  case shared
  with assms(1) show ?thesis by (simp add: links_ok_fields)
qed

lemma links_ok_kalloc:
  assumes "links_ok L s F" and "kalloc L s = Returns r s'"
  shows "links_ok L s' F"
  using assms by (auto simp add: kalloc_def links_ok_def Let_def split: if_splits)

lemma links_ok_chain:
  assumes "\<forall>p\<in>F. load_next m p = 0 \<or> load_next m p \<in> F"
  shows "p = 0 \<or> p \<in> F \<Longrightarrow> chain m p xs \<Longrightarrow> set xs \<subseteq> F"
proof (induction xs arbitrary: p)
  case Nil
  then show ?case by simp
next
  case (Cons x xs)
  from Cons.prems have x: "x = p" "p \<noteq> 0" "p \<in> F" and rest: "chain m (load_next m p) xs"
    by auto
  from assms x have "load_next m p = 0 \<or> load_next m p \<in> F" by blast
  then have "set xs \<subseteq> F" using rest by (rule Cons.IH)
  with x show ?case by simp
qed

lemma reachable_links_ok: "reachable L s \<Longrightarrow> \<exists>F. links_ok L s F"
proof (induction rule: reachable.induct)
  case (reach_boot m)
  have "links_ok L (boot_state m) {}" by (simp add: links_ok_def boot_state_def)
  then show ?case by blast
next
  case (reach_kinit1 s a b s')
  from reach_kinit1.IH have "\<exists>F. links_ok L (s\<lparr>use_lock := 0\<rparr>) F"
    by (simp add: links_ok_fields)
  with reach_kinit1.hyps(2) show ?case
    by (rule kinit1_preserves [where P = "\<lambda>s. \<exists>F. links_ok L s F", rotated 1])
      (rule links_ok_kfree)
next
  case (reach_kinit2 s a b s')
  from reach_kinit2.hyps(2) obtain s1 where
    s1: "freerange L s a b = Some (Returns () s1)" and
    s': "s' = s1\<lparr>use_lock := 1,
      refcount := (\<lambda>i. if i < drop_bit PGSHIFT (PHYSTOP L) then 0 else refcount s1 i)\<rparr>"
    by (rule kinit2_Returns)
  from s1 have "freerange_loop L s (PGROUNDUP a) b = Some (Returns () s1)"
    by (simp add: freerange_def)
  then have "\<exists>F. links_ok L s1 F"
    using reach_kinit2.IH
    by (rule freerange_loop_preserves [where P = "\<lambda>s. \<exists>F. links_ok L s F", rotated 1])
      (rule links_ok_kfree)
  with s' show ?case by (simp add: links_ok_fields)
next
  case (reach_kalloc s r s')
  then show ?case using links_ok_kalloc by blast
next
  case (reach_kfree s v s')
  then show ?case using links_ok_kfree by blast
next
  case (reach_inc s pa)
  then show ?case by (simp add: inc_refcount_def links_ok_fields)
next
  case (reach_dec s pa)
  then show ?case by (simp add: dec_refcount_def links_ok_fields)
next
  case (reach_write s xs m')
  from reach_write.IH obtain F where F: "links_ok L s F" by blast
  have sub: "set xs \<subseteq> F"
    using F reach_write.hyps(2)
    by (intro links_ok_chain [of F "mem s" "freelist s"]) (auto simp: links_ok_def)
  have "links_ok L (s\<lparr>mem := m'\<rparr>) (set xs)"
    unfolding links_ok_def
  proof (intro conjI ballI)
    show "freelist (s\<lparr>mem := m'\<rparr>) = 0 \<or> freelist (s\<lparr>mem := m'\<rparr>) \<in> set xs"
      using chain_head [OF reach_write.hyps(2)] by simp
  next
    fix p assume p: "p \<in> set xs"
    with sub F show "valid_page L p" by (auto simp add: links_ok_def)
    from p reach_write.hyps(3) have "load_next m' p = load_next (mem s) p" by blast
    with chain_next [OF reach_write.hyps(2) p]
    show "load_next (mem (s\<lparr>mem := m'\<rparr>)) p = 0 \<or>
        load_next (mem (s\<lparr>mem := m'\<rparr>)) p \<in> set xs"
      by simp
  qed
  then show ?case by blast
qed

lemma reachable_chain_valid:
  assumes "reachable L s" "chain (mem s) (freelist s) xs" "x \<in> set xs"
  shows "valid_page L x"
proof -
  from assms(1) obtain F where F: "links_ok L s F" using reachable_links_ok by blast
  then have "set xs \<subseteq> F"
    using assms(2) by (intro links_ok_chain [of F "mem s" "freelist s"]) (auto simp: links_ok_def)
  with F assms(3) show ?thesis by (auto simp add: links_ok_def)
qed

lemma reachable_head_valid:
  assumes "reachable L s" "freelist s \<noteq> 0"
  shows "valid_page L (freelist s)"
proof -
  from assms(1) obtain F where "links_ok L s F" using reachable_links_ok by blast
  with assms(2) show ?thesis by (auto simp add: links_ok_def)
qed


section \<open>The concrete boot\<close>

lemma demo_kinit1:
  "kinit1 xv6_layout (boot_state (\<lambda>_. 0)) 0x801154a8 0x80118000 = Some (Returns () demo_phase1)"
  by (simp add: kinit1_def freerange_def freerange_loop.simps kfree_def xv6_layout_def
      boot_state_def V2P_def PGSIZE_def PGSHIFT_def PGROUNDUP_def Let_def demo_phase1_def
      demo_mem1_def)

lemma demo_kinit2:
  "kinit2 xv6_layout demo_phase1 0x80400000 0x80401000 = Some (Returns () demo_boot)"
  by (simp add: kinit2_def freerange_def freerange_loop.simps kfree_def xv6_layout_def
      V2P_def PGSIZE_def PGSHIFT_def PGROUNDUP_def Let_def demo_phase1_def demo_boot_def
      demo_mem_def fun_eq_iff)

lemma reachable_demo_boot: "reachable xv6_layout demo_boot"
  using reach_kinit2 [OF reach_kinit1 [OF reach_boot demo_kinit1] demo_kinit2] .

lemma demo_valid:
  "valid_page xv6_layout 0x80116000"
  "valid_page xv6_layout 0x80117000"
  "valid_page xv6_layout 0x80400000"
  by (simp_all add: valid_page_def xv6_layout_def V2P_def PGSIZE_def)

lemma demo_links:
  "load_next demo_mem 0x80400000 = 0x80117000"
  "load_next demo_mem 0x80117000 = 0x80116000"
  "load_next demo_mem 0x80116000 = 0"
  by (simp_all add: demo_mem_def demo_mem1_def load_next_def store_next_def memset_def
      PGSIZE_def)

lemma demo_index:
  "page_index xv6_layout 0x80116000 = 0x116"
  "page_index xv6_layout 0x80117000 = 0x117"
  "page_index xv6_layout 0x80400000 = 0x400"
  by (simp_all add: page_index_def xv6_layout_def V2P_def PGSHIFT_def drop_bit_eq_div)


lemma demo_kalloc: "kalloc xv6_layout demo_boot = Returns 0x80400000 demo_owned"
  by (simp add: kalloc_def demo_boot_def demo_owned_def demo_links xv6_layout_def V2P_def
      PGSHIFT_def drop_bit_eq_div)

lemma reachable_demo_owned: "reachable xv6_layout demo_owned"
  using reach_kalloc [OF reachable_demo_boot demo_kalloc] .

lemma reachable_demo_shared: "reachable xv6_layout demo_shared"
  unfolding demo_shared_def using reachable_demo_owned by (rule reach_inc)

lemma demo_owned_count: "get_refcount demo_owned (V2P xv6_layout 0x80400000) = 1"
  by (simp add: get_refcount_def demo_owned_def xv6_layout_def V2P_def PGSHIFT_def
      drop_bit_eq_div)

lemma demo_shared_count: "get_refcount demo_shared (V2P xv6_layout 0x80400000) = 2"
  by (simp add: get_refcount_def demo_shared_def inc_refcount_def demo_owned_def
      xv6_layout_def V2P_def PGSHIFT_def drop_bit_eq_div)

lemma demo_flags: "use_lock demo_boot = 1" "use_lock demo_owned = 1" "use_lock demo_shared = 1"
  by (simp_all add: demo_boot_def demo_owned_def demo_shared_def inc_refcount_def)

lemma demo_chain:
  "chain (mem demo_boot) (freelist demo_boot) [0x80400000, 0x80117000, 0x80116000]"
  by (simp add: demo_boot_def demo_links)

lemma demo_early_kalloc: "kalloc xv6_layout demo_phase1 = Returns 0x80117000 demo_early_owned"
  by (simp add: kalloc_def demo_phase1_def demo_early_owned_def demo_mem1_def load_store_same
      xv6_layout_def V2P_def PGSHIFT_def drop_bit_eq_div)

lemma demo_early_counts:
  "get_refcount demo_early_owned (V2P xv6_layout 0x80117000) = 1"
  "get_refcount demo_early_shared (V2P xv6_layout 0x80117000) = 2"
  by (simp_all add: get_refcount_def demo_early_shared_def inc_refcount_def demo_early_owned_def
      xv6_layout_def V2P_def PGSHIFT_def drop_bit_eq_div)

lemma demo_early_flags: "use_lock demo_early_owned = 0" "use_lock demo_early_shared = 0"
  by (simp_all add: demo_early_shared_def inc_refcount_def demo_early_owned_def)

section \<open>Signed reading of the counter\<close>

lemma sint_succ:
  fixes c :: "32 word"
  assumes "sint c < 2147483647"
  shows "sint (c + 1) = sint c + 1"
proof -
  have "- (2 ^ (LENGTH(32) - 1)) \<le> sint c" by (rule sint_ge)
  then have "- 2147483648 \<le> sint c" by simp
  with assms show ?thesis
    by (simp add: sint_word_ariths signed_take_bit_int_eq_self)
qed

lemma sint_pred:
  fixes c :: "32 word"
  assumes "- 2147483648 < sint c"
  shows "sint (c - 1) = sint c - 1"
proof -
  have "sint c < 2 ^ (LENGTH(32) - 1)" by (rule sint_lt)
  then have "sint c < 2147483648" by simp
  with assms show ?thesis
    by (simp add: sint_word_ariths signed_take_bit_int_eq_self)
qed

lemma get_refcount_V2P: "get_refcount s (V2P L v) = refcount s (page_index L v)"
  by (simp add: get_refcount_def page_index_def)

section \<open>The claims about kfree\<close>

text \<open>
  C2. With locking on (\<open>use_lock\<close> not 0), \<open>kfree\<close> of an address that passes the address
  check and whose reference count is 0 panics with the underflow message, and the state at
  the halt is the state at the call: the free list, the counter, the table and the memory
  are as before.
\<close>

theorem kfree_refcount_zero_panics:
  assumes "use_lock s \<noteq> 0" and "valid_page L v" and "get_refcount s (V2P L v) = 0"
  shows "kfree L s v = Panics ''kfree: refcount underflow'' s"
  using assms by (simp add: kfree_zero get_refcount_V2P)

theorem kfree_refcount_zero_panics_witness:
  "use_lock demo_boot \<noteq> 0 \<and> valid_page xv6_layout 0x80400000 \<and>
   get_refcount demo_boot (V2P xv6_layout 0x80400000) = 0 \<and>
   kfree xv6_layout demo_boot 0x80400000 = Panics ''kfree: refcount underflow'' demo_boot"
  using kfree_refcount_zero_panics [of demo_boot xv6_layout "0x80400000"]
  by (simp add: demo_valid get_refcount_def demo_boot_def)

text \<open>
  C7. \<open>kfree\<close> panics with the message \<open>kfree\<close>, leaving the state as it was at the call,
  when the address is not a multiple of the page size, or lies below the end of the kernel
  image, or has a physical address at or above \<open>PHYSTOP\<close>. An address for which none of the
  three holds never draws this panic.
\<close>

theorem kfree_address_check:
  "(v mod PGSIZE \<noteq> 0 \<or> v < kernel_end L \<or> PHYSTOP L \<le> V2P L v
      \<longrightarrow> kfree L s v = Panics ''kfree'' s) \<and>
   (v mod PGSIZE = 0 \<and> kernel_end L \<le> v \<and> V2P L v < PHYSTOP L
      \<longrightarrow> (\<forall>t. kfree L s v \<noteq> Panics ''kfree'' t))"
  by (auto simp add: kfree_def Let_def not_le not_less)

theorem kfree_address_check_witness:
  "((0x80400010::addr) mod PGSIZE \<noteq> 0 \<and>
    kfree xv6_layout demo_boot 0x80400010 = Panics ''kfree'' demo_boot) \<and>
   ((0x80100000::addr) < kernel_end xv6_layout \<and>
    kfree xv6_layout demo_boot 0x80100000 = Panics ''kfree'' demo_boot) \<and>
   (PHYSTOP xv6_layout \<le> V2P xv6_layout 0x8E000000 \<and>
    kfree xv6_layout demo_boot 0x8E000000 = Panics ''kfree'' demo_boot) \<and>
   ((0x80400000::addr) mod PGSIZE = 0 \<and> kernel_end xv6_layout \<le> 0x80400000 \<and>
    V2P xv6_layout 0x80400000 < PHYSTOP xv6_layout \<and>
    (\<forall>t. kfree xv6_layout demo_boot 0x80400000 \<noteq> Panics ''kfree'' t))"
  using kfree_address_check [of "0x80400010" xv6_layout demo_boot]
    kfree_address_check [of "0x80100000" xv6_layout demo_boot]
    kfree_address_check [of "0x8E000000" xv6_layout demo_boot]
    kfree_address_check [of "0x80400000" xv6_layout demo_boot]
  by (simp add: xv6_layout_def V2P_def PGSIZE_def)

text \<open>
  C3, as stated, fails while locking is off. Between the two phases of the boot \<open>kalloc\<close>
  hands out a page with reference count 1; \<open>kfree\<close> of that page takes the branch of the
  early initialisation, which pushes the page and leaves its count at 1.
\<close>

theorem kfree_last_owner_counterexample:
  "kalloc xv6_layout demo_phase1 = Returns 0x80117000 demo_early_owned \<and>
   get_refcount demo_early_owned (V2P xv6_layout 0x80117000) = 1 \<and>
   kfree xv6_layout demo_early_owned 0x80117000 =
     Returns () (push_page demo_early_owned 0x80117000) \<and>
   get_refcount (push_page demo_early_owned 0x80117000) (V2P xv6_layout 0x80117000) \<noteq> 0"
proof -
  have "kfree xv6_layout demo_early_owned 0x80117000 =
      Returns () (push_page demo_early_owned 0x80117000)"
    by (simp add: kfree_boot demo_valid demo_early_flags)
  moreover have
    "get_refcount (push_page demo_early_owned 0x80117000) (V2P xv6_layout 0x80117000) = 1"
    using demo_early_counts(1) by (simp add: get_refcount_def push_page_simps)
  ultimately show ?thesis using demo_early_kalloc demo_early_counts(1) by simp
qed

text \<open>
  C3, amended. With locking on, \<open>kfree\<close> of a page that passes the address check and has
  reference count 1 returns; the count of the page is then 0; all 4096 bytes of the page
  have been filled with the byte 1 and then the first four bytes of the page have received
  the link to the old head of the free list, so every byte of the page from offset 4 on is
  1; the page is the new head of the free list; the counter is one more (as a 32-bit
  integer, and as the number \<open>freemem\<close> reads unless the counter was at its maximum).
  Nothing else changes.
\<close>

theorem kfree_last_owner:
  assumes "valid_page L v" and "use_lock s \<noteq> 0" and "get_refcount s (V2P L v) = 1"
  shows "\<exists>s'. kfree L s v = Returns () s' \<and>
    get_refcount s' (V2P L v) = 0 \<and>
    mem s' = store_next (memset (mem s) v 1 PGSIZE) v (freelist s) \<and>
    (\<forall>a. a - v < PGSIZE \<longrightarrow> memset (mem s) v 1 PGSIZE a = 1) \<and>
    (\<forall>a. 4 \<le> a - v \<and> a - v < PGSIZE \<longrightarrow> mem s' a = 1) \<and>
    (\<forall>a. PGSIZE \<le> a - v \<longrightarrow> mem s' a = mem s a) \<and>
    freelist s' = v \<and>
    load_next (mem s') v = freelist s \<and>
    num_free_pages s' = num_free_pages s + 1 \<and>
    (freemem s < 2147483647 \<longrightarrow> freemem s' = freemem s + 1) \<and>
    use_lock s' = use_lock s \<and>
    (\<forall>i. i \<noteq> page_index L v \<longrightarrow> refcount s' i = refcount s i)"
proof -
  let ?s' = "push_page (s\<lparr>refcount := (refcount s)(page_index L v := 0)\<rparr>) v"
  have k: "kfree L s v = Returns () ?s'"
    using assms by (simp add: kfree_last get_refcount_V2P)
  have off: "a \<noteq> v \<and> a \<noteq> v + 1 \<and> a \<noteq> v + 2 \<and> a \<noteq> v + 3" if "4 \<le> a - v" for a
  proof -
    have "a \<noteq> v + j" if "j < 4" for j
    proof
      assume "a = v + j"
      then have "a - v = j" by simp
      with \<open>4 \<le> a - v\<close> that show False by (simp add: word_le_nat_alt word_less_nat_alt)
    qed
    from this [of 0] this [of 1] this [of 2] this [of 3] show ?thesis by simp
  qed
  have inside: "mem ?s' a = 1" if "4 \<le> a - v \<and> a - v < PGSIZE" for a
    using that off [of a] by (simp add: push_page_simps store_next_def memset_def)
  have outside: "mem ?s' a = mem s a" if "PGSIZE \<le> a - v" for a
  proof -
    from that have "4 \<le> a - v" by (simp add: PGSIZE_def word_le_nat_alt)
    moreover from that have "\<not> a - v < PGSIZE" by (simp add: not_less)
    ultimately show ?thesis
      using off [of a] by (simp add: push_page_simps store_next_def memset_def)
  qed
  have "get_refcount ?s' (V2P L v) = 0"
    by (simp add: get_refcount_V2P push_page_simps)
  moreover have "mem ?s' = store_next (memset (mem s) v 1 PGSIZE) v (freelist s)"
    by (simp add: push_page_simps)
  moreover have "\<forall>a. a - v < PGSIZE \<longrightarrow> memset (mem s) v 1 PGSIZE a = 1"
    by (simp add: memset_def)
  moreover have "freelist ?s' = v" by (simp add: push_page_simps)
  moreover have "load_next (mem ?s') v = freelist s"
    by (simp add: load_push_same)
  moreover have "num_free_pages ?s' = num_free_pages s + 1" by (simp add: push_page_simps)
  moreover have "freemem s < 2147483647 \<longrightarrow> freemem ?s' = freemem s + 1"
    by (simp add: freemem_def push_page_simps sint_succ)
  moreover have "use_lock ?s' = use_lock s" by (simp add: push_page_simps)
  moreover have "\<forall>i. i \<noteq> page_index L v \<longrightarrow> refcount ?s' i = refcount s i"
    by (simp add: push_page_simps)
  ultimately show ?thesis using k inside outside by blast
qed

theorem kfree_last_owner_witness:
  "valid_page xv6_layout 0x80400000 \<and> use_lock demo_owned \<noteq> 0 \<and>
   get_refcount demo_owned (V2P xv6_layout 0x80400000) = 1 \<and>
   (\<exists>s'. kfree xv6_layout demo_owned 0x80400000 = Returns () s' \<and>
      get_refcount s' (V2P xv6_layout 0x80400000) = 0 \<and> freelist s' = 0x80400000 \<and>
      load_next (mem s') 0x80400000 = 0x80117000 \<and> num_free_pages s' = 3)"
proof -
  have "freelist demo_owned = 0x80117000" "num_free_pages demo_owned = 2"
    by (simp_all add: demo_owned_def)
  then show ?thesis
    using kfree_last_owner [of xv6_layout "0x80400000" demo_owned]
    by (auto simp add: demo_valid demo_flags demo_owned_count)
qed

text \<open>
  C4, as stated, fails while locking is off. A page with reference count 2 that is freed
  between the two phases of the boot is pushed onto the free list like any other: its count
  stays 2, it becomes the head of the free list and the counter goes from 1 to 2.
\<close>

theorem kfree_still_shared_counterexample:
  "1 < get_refcount demo_early_shared (V2P xv6_layout 0x80117000) \<and>
   kfree xv6_layout demo_early_shared 0x80117000 =
     Returns () (push_page demo_early_shared 0x80117000) \<and>
   get_refcount (push_page demo_early_shared 0x80117000) (V2P xv6_layout 0x80117000) =
     get_refcount demo_early_shared (V2P xv6_layout 0x80117000) \<and>
   freelist demo_early_shared = 0x80116000 \<and>
   freelist (push_page demo_early_shared 0x80117000) = 0x80117000 \<and>
   num_free_pages demo_early_shared = 1 \<and>
   num_free_pages (push_page demo_early_shared 0x80117000) = 2"
proof -
  have "kfree xv6_layout demo_early_shared 0x80117000 =
      Returns () (push_page demo_early_shared 0x80117000)"
    by (simp add: kfree_boot demo_valid demo_early_flags)
  moreover have "freelist demo_early_shared = 0x80116000" "num_free_pages demo_early_shared = 1"
    by (simp_all add: demo_early_shared_def inc_refcount_def demo_early_owned_def)
  ultimately show ?thesis
    by (simp add: demo_early_counts [unfolded get_refcount_def] get_refcount_def
        push_page_simps)
qed

text \<open>
  C4, amended. With locking on, \<open>kfree\<close> of a page that passes the address check and has a
  reference count above 1 returns with that count one less and with nothing else changed:
  the memory, the head of the free list and the counter are as before.
\<close>

theorem kfree_still_shared:
  assumes "valid_page L v" and "use_lock s \<noteq> 0" and "1 < get_refcount s (V2P L v)"
  shows "\<exists>s'. kfree L s v = Returns () s' \<and>
    s' = s\<lparr>refcount := (refcount s)(page_index L v := get_refcount s (V2P L v) - 1)\<rparr> \<and>
    unat (get_refcount s' (V2P L v)) = unat (get_refcount s (V2P L v)) - 1 \<and>
    0 < get_refcount s' (V2P L v) \<and>
    mem s' = mem s \<and> freelist s' = freelist s \<and>
    num_free_pages s' = num_free_pages s \<and> freemem s' = freemem s \<and>
    use_lock s' = use_lock s \<and>
    (\<forall>i. i \<noteq> page_index L v \<longrightarrow> refcount s' i = refcount s i)"
proof -
  let ?c = "get_refcount s (V2P L v)"
  let ?s' = "s\<lparr>refcount := (refcount s)(page_index L v := ?c - 1)\<rparr>"
  have k: "kfree L s v = Returns () ?s'"
    using assms by (simp add: kfree_shared get_refcount_V2P)
  have c: "1 < unat ?c" using assms(3) by (simp add: word_less_nat_alt)
  then have u: "unat (?c - 1) = unat ?c - 1" by (simp add: unat_sub_if_size)
  with c have pos: "0 < ?c - 1" by (simp add: word_less_nat_alt)
  have "get_refcount ?s' (V2P L v) = ?c - 1" by (simp add: get_refcount_V2P)
  with u pos k show ?thesis by (simp add: freemem_def)
qed


theorem kfree_still_shared_witness:
  "valid_page xv6_layout 0x80400000 \<and> use_lock demo_shared \<noteq> 0 \<and>
   1 < get_refcount demo_shared (V2P xv6_layout 0x80400000) \<and>
   (\<exists>s'. kfree xv6_layout demo_shared 0x80400000 = Returns () s' \<and>
      get_refcount s' (V2P xv6_layout 0x80400000) = 1 \<and>
      mem s' = mem demo_shared \<and> freelist s' = freelist demo_shared \<and>
      num_free_pages s' = num_free_pages demo_shared)"
proof -
  have h: "valid_page xv6_layout 0x80400000" "use_lock demo_shared \<noteq> 0"
    "1 < get_refcount demo_shared (V2P xv6_layout 0x80400000)"
    by (simp_all add: demo_valid demo_flags demo_shared_count)
  from kfree_still_shared [OF h] obtain s' where
    k: "kfree xv6_layout demo_shared 0x80400000 = Returns () s'" and
    s': "s' = demo_shared\<lparr>refcount := (refcount demo_shared)
           (page_index xv6_layout 0x80400000 :=
              get_refcount demo_shared (V2P xv6_layout 0x80400000) - 1)\<rparr>"
    by blast
  from s' have "get_refcount s' (V2P xv6_layout 0x80400000) = 1"
    by (simp add: get_refcount_V2P demo_shared_count [unfolded get_refcount_V2P])
  with k s' h show ?thesis by simp
qed

section \<open>The claims about the accessors and kalloc\<close>

lemma minus_one_32: "(- 1 :: 32 word) = 0xFFFFFFFF"
  by simp

text \<open>
  C10. \<open>inc_refcount\<close> and \<open>dec_refcount\<close> add and subtract 1 modulo \<open>2 ^ 32\<close> with no check
  and change nothing but the one entry of the table. On a count of 0, \<open>dec_refcount\<close>
  leaves \<open>2 ^ 32 - 1\<close>, and a \<open>kfree\<close> of that page right after never panics with the
  underflow message: with locking on and an address that passes the check it takes the
  branch of a page that is still shared and leaves \<open>2 ^ 32 - 2\<close>.
\<close>

theorem refcount_accessors_wrap:
  "get_refcount (dec_refcount s pa) pa = get_refcount s pa - 1 \<and>
   get_refcount (inc_refcount s pa) pa = get_refcount s pa + 1 \<and>
   unat (get_refcount (dec_refcount s pa) pa) = (unat (get_refcount s pa) + (2 ^ 32 - 1)) mod 2 ^ 32 \<and>
   unat (get_refcount (inc_refcount s pa) pa) = (unat (get_refcount s pa) + 1) mod 2 ^ 32 \<and>
   dec_refcount s pa = s\<lparr>refcount := (refcount s)(drop_bit PGSHIFT pa := get_refcount s pa - 1)\<rparr> \<and>
   inc_refcount s pa = s\<lparr>refcount := (refcount s)(drop_bit PGSHIFT pa := get_refcount s pa + 1)\<rparr> \<and>
   (get_refcount s pa = 0 \<longrightarrow> get_refcount (dec_refcount s pa) pa = 0xFFFFFFFF) \<and>
   (get_refcount s pa = 0xFFFFFFFF \<longrightarrow> get_refcount (inc_refcount s pa) pa = 0) \<and>
   (get_refcount s (V2P L v) = 0 \<longrightarrow>
      (\<forall>t. kfree L (dec_refcount s (V2P L v)) v \<noteq> Panics ''kfree: refcount underflow'' t)) \<and>
   (valid_page L v \<and> use_lock s \<noteq> 0 \<and> get_refcount s (V2P L v) = 0 \<longrightarrow>
      kfree L (dec_refcount s (V2P L v)) v =
        Returns () (s\<lparr>refcount := (refcount s)(page_index L v := 0xFFFFFFFE)\<rparr>))"
proof -
  have d: "get_refcount (dec_refcount s pa) pa = get_refcount s pa - 1"
    and i: "get_refcount (inc_refcount s pa) pa = get_refcount s pa + 1"
    by (simp_all add: get_refcount_def dec_refcount_def inc_refcount_def)
  have ud: "unat (get_refcount s pa - 1) = (unat (get_refcount s pa) + (2 ^ 32 - 1)) mod 2 ^ 32"
  proof (cases "unat (get_refcount s pa) = 0")
    case True
    then show ?thesis by (simp add: unat_sub_if_size word_size)
  next
    case False
    define n where "n = unat (get_refcount s pa) - 1"
    with False have n: "unat (get_refcount s pa) = n + 1" by simp
    have "n < 4294967296" using unat_bound32 [of "get_refcount s pa"] n by simp
    then have "(n + 4294967296) mod 4294967296 = n" by simp
    moreover have "n + 1 + 4294967295 = n + 4294967296" by simp
    ultimately show ?thesis by (simp add: unat_sub_if_size word_size n)
  qed
  have ui: "unat (get_refcount s pa + 1) = (unat (get_refcount s pa) + 1) mod 2 ^ 32"
    by (simp add: unat_word_ariths)
  have k: "kfree L (dec_refcount s (V2P L v)) v =
      Returns () (s\<lparr>refcount := (refcount s)(page_index L v := 0xFFFFFFFE)\<rparr>)"
    if "valid_page L v" "use_lock s \<noteq> 0" "get_refcount s (V2P L v) = 0"
  proof -
    let ?t = "dec_refcount s (V2P L v)"
    have t: "?t = s\<lparr>refcount := (refcount s)(page_index L v := 0xFFFFFFFF)\<rparr>"
      using that(3)
      by (simp add: dec_refcount_def get_refcount_def page_index_def minus_one_32)
    have "kfree L ?t v =
        Returns () (?t\<lparr>refcount := (refcount ?t)(page_index L v := refcount ?t (page_index L v) - 1)\<rparr>)"
      using that(1,2) by (intro kfree_shared) (simp_all add: t)
    then show ?thesis by (simp add: t)
  qed
  have n: "kfree L (dec_refcount s (V2P L v)) v \<noteq> Panics ''kfree: refcount underflow'' t"
    if z: "get_refcount s (V2P L v) = 0" for t
  proof (cases "valid_page L v")
    case False
    then show ?thesis by (simp add: kfree_invalid)
  next
    case True
    show ?thesis
    proof (cases "use_lock s = 0")
      case True
      with \<open>valid_page L v\<close> show ?thesis by (simp add: kfree_boot dec_refcount_def)
    next
      case False
      with \<open>valid_page L v\<close> z show ?thesis by (simp add: k)
    qed
  qed
  show ?thesis
    using d i ud ui k n
    by (simp add: dec_refcount_def inc_refcount_def get_refcount_def)
qed

theorem refcount_accessors_wrap_witness:
  "get_refcount demo_boot (V2P xv6_layout 0x80400000) = 0 \<and>
   get_refcount (dec_refcount demo_boot (V2P xv6_layout 0x80400000)) (V2P xv6_layout 0x80400000)
     = 0xFFFFFFFF \<and>
   valid_page xv6_layout 0x80400000 \<and> use_lock demo_boot \<noteq> 0 \<and>
   kfree xv6_layout (dec_refcount demo_boot (V2P xv6_layout 0x80400000)) 0x80400000 =
     Returns () (demo_boot\<lparr>refcount := (refcount demo_boot)(0x400 := 0xFFFFFFFE)\<rparr>)"
proof -
  have z: "get_refcount demo_boot (V2P xv6_layout 0x80400000) = 0"
    by (simp add: get_refcount_def demo_boot_def)
  have v: "valid_page xv6_layout 0x80400000" and u: "use_lock demo_boot \<noteq> 0"
    by (simp_all add: demo_valid demo_flags)
  note w = refcount_accessors_wrap
    [of demo_boot "V2P xv6_layout 0x80400000" xv6_layout "0x80400000"]
  from w z have "get_refcount (dec_refcount demo_boot (V2P xv6_layout 0x80400000))
      (V2P xv6_layout 0x80400000) = 0xFFFFFFFF"
    by blast
  moreover from w z v u have
    "kfree xv6_layout (dec_refcount demo_boot (V2P xv6_layout 0x80400000)) 0x80400000 =
     Returns () (demo_boot\<lparr>refcount := (refcount demo_boot)
       (page_index xv6_layout 0x80400000 := 0xFFFFFFFE)\<rparr>)"
    by blast
  ultimately show ?thesis using z v u by (simp add: demo_index)
qed

text \<open>
  C5. When the free list is not empty, \<open>kalloc\<close> returns its head, makes the \<open>next\<close> field
  of that page the new head, takes one off the counter (as a 32-bit integer, and as the
  number \<open>freemem\<close> reads unless the counter was at its minimum) and sets the reference count
  of the page to 1, so that \<open>get_refcount\<close> of its physical address is 1 right after; the
  memory is not written. In every state the allocator can reach, the address \<open>kalloc\<close>
  returns is a multiple of the page size.
\<close>

theorem kalloc_success:
  "(freelist s \<noteq> 0 \<longrightarrow>
      (\<exists>s'. kalloc L s = Returns (freelist s) s' \<and>
         freelist s' = load_next (mem s) (freelist s) \<and>
         num_free_pages s' = num_free_pages s - 1 \<and>
         (- 2147483648 < freemem s \<longrightarrow> freemem s' = freemem s - 1) \<and>
         get_refcount s' (V2P L (freelist s)) = 1 \<and>
         mem s' = mem s \<and> use_lock s' = use_lock s \<and>
         (\<forall>i. i \<noteq> page_index L (freelist s) \<longrightarrow> refcount s' i = refcount s i))) \<and>
   (reachable L s \<longrightarrow> (\<forall>r s'. kalloc L s = Returns r s' \<longrightarrow> r mod PGSIZE = 0))"
proof -
  have "r mod PGSIZE = 0" if "reachable L s" "kalloc L s = Returns r s'" for r s'
  proof (cases "freelist s = 0")
    case True
    with that(2) show ?thesis by (simp add: kalloc_def)
  next
    case False
    with that(1) have "valid_page L (freelist s)" by (rule reachable_head_valid)
    moreover from that(2) have "r = freelist s" by (simp add: kalloc_def Let_def split: if_splits)
    ultimately show ?thesis by (simp add: valid_page_def)
  qed
  then show ?thesis
    by (auto simp add: kalloc_def Let_def get_refcount_def page_index_def freemem_def sint_pred)
qed

theorem kalloc_success_witness:
  "freelist demo_boot \<noteq> 0 \<and> reachable xv6_layout demo_boot \<and>
   kalloc xv6_layout demo_boot = Returns 0x80400000 demo_owned \<and>
   freelist demo_boot = 0x80400000 \<and>
   get_refcount demo_owned (V2P xv6_layout 0x80400000) = 1 \<and>
   num_free_pages demo_owned = num_free_pages demo_boot - 1 \<and>
   (0x80400000 :: addr) mod PGSIZE = 0"
proof -
  have "freelist demo_boot = 0x80400000" by (simp add: demo_boot_def)
  then show ?thesis
    using kalloc_success [of demo_boot xv6_layout] reachable_demo_boot demo_kalloc
    by auto
qed


section \<open>Allocating until the free list is empty\<close>

lemma kalloc_empty: "freelist s = 0 \<Longrightarrow> kalloc L s = Returns 0 s"
  by (simp add: kalloc_def)

lemma kalloc_head:
  "freelist s \<noteq> 0 \<Longrightarrow>
   kalloc L s =
     Returns (freelist s)
       (s\<lparr>freelist := load_next (mem s) (freelist s),
          num_free_pages := num_free_pages s - 1,
          refcount := (refcount s)(page_index L (freelist s) := 1)\<rparr>)"
  by (simp add: kalloc_def Let_def page_index_def)

lemma kalloc_times_chain:
  "chain (mem s) (freelist s) xs \<Longrightarrow>
   \<exists>t. kalloc_times L s (length xs) = (xs, t) \<and> freelist t = 0 \<and> mem t = mem s \<and>
       use_lock t = use_lock s \<and>
       num_free_pages t = num_free_pages s - of_nat (length xs) \<and>
       refcount t = (\<lambda>i. if i \<in> page_index L ` set xs then 1 else refcount s i)"
proof (induction xs arbitrary: s)
  case Nil
  then show ?case by simp
next
  case (Cons x xs)
  let ?s' = "s\<lparr>freelist := load_next (mem s) (freelist s),
          num_free_pages := num_free_pages s - 1,
          refcount := (refcount s)(page_index L (freelist s) := 1)\<rparr>"
  from Cons.prems have x: "freelist s = x" "x \<noteq> 0"
    and rest: "chain (mem ?s') (freelist ?s') xs" by auto
  from x have k: "kalloc L s = Returns x ?s'" using kalloc_head [of s L] by simp
  from Cons.IH [OF rest] obtain t where
    t: "kalloc_times L ?s' (length xs) = (xs, t)" "freelist t = 0" "mem t = mem s"
      "use_lock t = use_lock s"
      "num_free_pages t = num_free_pages s - 1 - of_nat (length xs)"
      "refcount t = (\<lambda>i. if i \<in> page_index L ` set xs then 1 else refcount ?s' i)"
    by auto
  have "kalloc_times L s (length (x # xs)) = (x # xs, t)" using k t(1) by simp
  moreover have "num_free_pages t = num_free_pages s - of_nat (length (x # xs))"
    using t(5) by simp
  moreover have
    "refcount t = (\<lambda>i. if i \<in> page_index L ` set (x # xs) then 1 else refcount s i)"
    using t(6) x(1) by (auto simp add: fun_eq_iff)
  ultimately show ?case using t(2,3,4) by blast
qed

lemma free_then_alloc:
  assumes v: "valid_page L v" "v \<noteq> 0"
    and own: "use_lock s = 0 \<or> refcount s (page_index L v) = 1"
  shows "\<exists>s2 s3. kfree L s v = Returns () s2 \<and> freelist s2 = v \<and>
    kalloc L s2 = Returns v s3"
proof (cases "use_lock s = 0")
  case True
  with v(1) have "kfree L s v = Returns () (push_page s v)" by (simp add: kfree_boot)
  moreover have "freelist (push_page s v) = v" by (simp add: push_page_simps)
  moreover from this v(2) have "\<exists>s3. kalloc L (push_page s v) = Returns v s3"
    using kalloc_head [of "push_page s v" L] by simp
  ultimately show ?thesis by blast
next
  case False
  let ?s2 = "push_page (s\<lparr>refcount := (refcount s)(page_index L v := 0)\<rparr>) v"
  from False own v(1) have "kfree L s v = Returns () ?s2" by (simp add: kfree_last)
  moreover have "freelist ?s2 = v" by (simp add: push_page_simps)
  moreover from this v(2) have "\<exists>s3. kalloc L ?s2 = Returns v s3"
    using kalloc_head [of ?s2 L] by simp
  ultimately show ?thesis by blast
qed

text \<open>
  C8. On an empty free list \<open>kalloc\<close> returns the null pointer and leaves the state as it
  was. When the free list is a chain of \<open>N\<close> pages, \<open>N\<close> calls of \<open>kalloc\<close> in a row return
  these pages, none of them null, and the next call returns null; in a state the allocator
  can reach, a \<open>kfree\<close> of any one of the \<open>N\<close> pages then returns and the \<open>kalloc\<close> after it
  succeeds (with that page).
\<close>

theorem kalloc_exhaustion:
  "(freelist s = 0 \<longrightarrow> kalloc L s = Returns 0 s) \<and>
   (chain (mem s) (freelist s) xs \<longrightarrow>
      (\<exists>t. kalloc_times L s (length xs) = (xs, t) \<and> 0 \<notin> set xs \<and>
         kalloc L t = Returns 0 t \<and>
         (reachable L s \<longrightarrow>
            (\<forall>x\<in>set xs. \<exists>u u'. kfree L t x = Returns () u \<and> kalloc L u = Returns x u'))))"
proof (intro conjI impI)
  assume "freelist s = 0"
  then show "kalloc L s = Returns 0 s" by (rule kalloc_empty)
next
  assume c: "chain (mem s) (freelist s) xs"
  from kalloc_times_chain [OF c, of L] obtain t where
    t: "kalloc_times L s (length xs) = (xs, t)" "freelist t = 0"
      "refcount t = (\<lambda>i. if i \<in> page_index L ` set xs then 1 else refcount s i)"
    by blast
  have nz: "0 \<notin> set xs" using c by (rule chain_nonzero)
  have "\<exists>u u'. kfree L t x = Returns () u \<and> kalloc L u = Returns x u'"
    if r: "reachable L s" and x: "x \<in> set xs" for x
  proof -
    from r c x have "valid_page L x" by (rule reachable_chain_valid)
    moreover from x nz have "x \<noteq> 0" by auto
    moreover from x t(3) have "refcount t (page_index L x) = 1" by simp
    ultimately show ?thesis using free_then_alloc [of L x t] by blast
  qed
  with t(1,2) nz show "\<exists>t. kalloc_times L s (length xs) = (xs, t) \<and> 0 \<notin> set xs \<and>
         kalloc L t = Returns 0 t \<and>
         (reachable L s \<longrightarrow>
            (\<forall>x\<in>set xs. \<exists>u u'. kfree L t x = Returns () u \<and> kalloc L u = Returns x u'))"
    using kalloc_empty [of t L] by blast
qed

text \<open>
  C9. A page that passes the address check and is freed by its last owner (or while
  locking is off) is the next page \<open>kalloc\<close> returns; so in a state the allocator can
  reach, freeing the page that \<open>kalloc\<close> has just returned and calling \<open>kalloc\<close> again gives
  the same address. When the free list is a chain of \<open>N\<close> pages, \<open>N\<close> calls of \<open>kalloc\<close> in
  a row return \<open>N\<close> addresses that differ from each other.
\<close>

theorem freelist_is_stack:
  "(valid_page L v \<and> v \<noteq> 0 \<and> (use_lock s = 0 \<or> get_refcount s (V2P L v) = 1) \<longrightarrow>
      (\<exists>s2 s3. kfree L s v = Returns () s2 \<and> kalloc L s2 = Returns v s3)) \<and>
   (reachable L s \<and> kalloc L s = Returns r s1 \<and> r \<noteq> 0 \<longrightarrow>
      (\<exists>s2 s3. kfree L s1 r = Returns () s2 \<and> kalloc L s2 = Returns r s3)) \<and>
   (chain (mem s) (freelist s) xs \<longrightarrow>
      fst (kalloc_times L s (length xs)) = xs \<and> length xs = length (fst (kalloc_times L s (length xs))) \<and>
      distinct (fst (kalloc_times L s (length xs))))"
proof (intro conjI impI)
  assume "valid_page L v \<and> v \<noteq> 0 \<and> (use_lock s = 0 \<or> get_refcount s (V2P L v) = 1)"
  then show "\<exists>s2 s3. kfree L s v = Returns () s2 \<and> kalloc L s2 = Returns v s3"
    using free_then_alloc [of L v s] by (auto simp add: get_refcount_V2P)
next
  assume a: "reachable L s \<and> kalloc L s = Returns r s1 \<and> r \<noteq> 0"
  then have h: "freelist s \<noteq> 0" by (auto simp add: kalloc_def)
  with a have r: "r = freelist s" and
    s1: "s1 = s\<lparr>freelist := load_next (mem s) (freelist s),
          num_free_pages := num_free_pages s - 1,
          refcount := (refcount s)(page_index L (freelist s) := 1)\<rparr>"
    using kalloc_head [of s L] by auto
  from a h r have "valid_page L r" using reachable_head_valid [of L s] by simp
  moreover from r s1 have "refcount s1 (page_index L r) = 1" by simp
  ultimately show "\<exists>s2 s3. kfree L s1 r = Returns () s2 \<and> kalloc L s2 = Returns r s3"
    using a free_then_alloc [of L r s1] by blast
next
  assume c: "chain (mem s) (freelist s) xs"
  from kalloc_times_chain [OF c, of L] obtain t where
    "kalloc_times L s (length xs) = (xs, t)" by blast
  then show "fst (kalloc_times L s (length xs)) = xs" by simp
  then show "length xs = length (fst (kalloc_times L s (length xs)))" by simp
  from c have "distinct xs" by (rule chain_distinct)
  with \<open>fst (kalloc_times L s (length xs)) = xs\<close>
  show "distinct (fst (kalloc_times L s (length xs)))" by simp
qed


lemma demo_three:
  "length [0x80400000 :: addr, 0x80117000, 0x80116000] = 3"
  "(0x80117000 :: addr) \<in> set [0x80400000, 0x80117000, 0x80116000]"
  by simp_all

theorem kalloc_exhaustion_witness:
  "freelist (boot_state (\<lambda>_. 0)) = 0 \<and>
   kalloc xv6_layout (boot_state (\<lambda>_. 0)) = Returns 0 (boot_state (\<lambda>_. 0)) \<and>
   chain (mem demo_boot) (freelist demo_boot) [0x80400000, 0x80117000, 0x80116000] \<and>
   reachable xv6_layout demo_boot \<and>
   (0x80117000 :: addr) \<in> set [0x80400000, 0x80117000, 0x80116000] \<and>
   (\<exists>t. kalloc_times xv6_layout demo_boot 3 = ([0x80400000, 0x80117000, 0x80116000], t) \<and>
      kalloc xv6_layout t = Returns 0 t \<and>
      (\<exists>u u'. kfree xv6_layout t 0x80117000 = Returns () u \<and>
         kalloc xv6_layout u = Returns 0x80117000 u'))"
proof -
  have e: "freelist (boot_state (\<lambda>_. 0)) = 0" by (simp add: boot_state_def)
  from kalloc_exhaustion [of "boot_state (\<lambda>_. 0)" xv6_layout "[]"] e
  have k0: "kalloc xv6_layout (boot_state (\<lambda>_. 0)) = Returns 0 (boot_state (\<lambda>_. 0))"
    by blast
  note w = kalloc_exhaustion
    [of demo_boot xv6_layout "[0x80400000, 0x80117000, 0x80116000]", unfolded demo_three(1)]
  from w demo_chain reachable_demo_boot demo_three(2)
  have "\<exists>t. kalloc_times xv6_layout demo_boot 3 = ([0x80400000, 0x80117000, 0x80116000], t) \<and>
      kalloc xv6_layout t = Returns 0 t \<and>
      (\<exists>u u'. kfree xv6_layout t 0x80117000 = Returns () u \<and>
         kalloc xv6_layout u = Returns 0x80117000 u')"
    by blast
  with e k0 demo_chain reachable_demo_boot demo_three(2) show ?thesis by blast
qed

theorem freelist_is_stack_witness:
  "valid_page xv6_layout 0x80400000 \<and> (0x80400000 :: addr) \<noteq> 0 \<and>
   get_refcount demo_owned (V2P xv6_layout 0x80400000) = 1 \<and>
   reachable xv6_layout demo_boot \<and>
   kalloc xv6_layout demo_boot = Returns 0x80400000 demo_owned \<and>
   (\<exists>s2 s3. kfree xv6_layout demo_owned 0x80400000 = Returns () s2 \<and>
      kalloc xv6_layout s2 = Returns 0x80400000 s3) \<and>
   chain (mem demo_boot) (freelist demo_boot) [0x80400000, 0x80117000, 0x80116000] \<and>
   fst (kalloc_times xv6_layout demo_boot 3) = [0x80400000, 0x80117000, 0x80116000] \<and>
   distinct (fst (kalloc_times xv6_layout demo_boot 3))"
proof -
  note w1 = freelist_is_stack
    [of xv6_layout "0x80400000" demo_owned "0x80400000" demo_owned "[]"]
  note w2 = freelist_is_stack
    [of xv6_layout "0x80400000" demo_boot "0x80400000" demo_owned
      "[0x80400000, 0x80117000, 0x80116000]", unfolded demo_three(1)]
  have h: "valid_page xv6_layout 0x80400000" "(0x80400000 :: addr) \<noteq> 0"
    "get_refcount demo_owned (V2P xv6_layout 0x80400000) = 1"
    by (simp_all add: demo_valid demo_owned_count)
  from w1 h have a: "\<exists>s2 s3. kfree xv6_layout demo_owned 0x80400000 = Returns () s2 \<and>
      kalloc xv6_layout s2 = Returns 0x80400000 s3"
    by blast
  from w2 h(2) reachable_demo_boot demo_kalloc
  have a': "\<exists>s2 s3. kfree xv6_layout demo_owned 0x80400000 = Returns () s2 \<and>
      kalloc xv6_layout s2 = Returns 0x80400000 s3"
    by blast
  from w2 demo_chain have
    b: "fst (kalloc_times xv6_layout demo_boot 3) = [0x80400000, 0x80117000, 0x80116000]"
    and c: "distinct (fst (kalloc_times xv6_layout demo_boot 3))"
    by blast+
  from h a b c reachable_demo_boot demo_kalloc demo_chain show ?thesis by blast
qed


section \<open>Pages and their indices\<close>

lemma same_index_close:
  fixes a b :: addr
  assumes "drop_bit PGSHIFT a = drop_bit PGSHIFT b"
  shows "a - b < PGSIZE \<or> b - a < PGSIZE"
proof -
  from assms have "unat (drop_bit 12 a) = unat (drop_bit 12 b)" by (simp add: PGSHIFT_def)
  then have d: "unat a div 4096 = unat b div 4096"
    by (simp add: drop_bit_eq_div unat_div)
  define q where "q = unat b div 4096"
  define ra where "ra = unat a mod 4096"
  define rb where "rb = unat b mod 4096"
  have ea: "unat a = 4096 * q + ra"
    unfolding q_def ra_def d [symmetric] by (simp add: mult_div_mod_eq)
  have eb: "unat b = 4096 * q + rb"
    unfolding q_def rb_def by (simp add: mult_div_mod_eq)
  have r: "ra < 4096" "rb < 4096" by (simp_all add: ra_def rb_def)
  show ?thesis
  proof (cases "ra \<le> rb")
    case True
    then have "unat (b - a) = rb - ra" by (simp add: unat_sub_if_size ea eb)
    with r have "unat (b - a) < 4096" by simp
    then show ?thesis by (simp add: word_less_nat_alt PGSIZE_def)
  next
    case False
    then have "unat (a - b) = ra - rb" by (simp add: unat_sub_if_size ea eb)
    with r have "unat (a - b) < 4096" by simp
    then show ?thesis by (simp add: word_less_nat_alt PGSIZE_def)
  qed
qed

lemma page_index_inj:
  assumes "x mod PGSIZE = 0" "y mod PGSIZE = 0" "page_index L x = page_index L y"
  shows "x = y"
proof (rule ccontr)
  assume ne: "x \<noteq> y"
  have "PGSIZE \<le> y + 0 - x" using assms(1,2) ne by (intro pages_apart) simp_all
  then have 1: "\<not> y - x < PGSIZE" by (simp add: not_less)
  have "PGSIZE \<le> x + 0 - y" using assms(1,2) ne by (intro pages_apart) simp_all
  then have 2: "\<not> x - y < PGSIZE" by (simp add: not_less)
  from assms(3) have "V2P L x - V2P L y < PGSIZE \<or> V2P L y - V2P L x < PGSIZE"
    unfolding page_index_def by (rule same_index_close)
  with 1 2 show False by (simp add: V2P_def)
qed

lemma aligned_pages_count:
  assumes d: "distinct xs" and al: "\<And>x. x \<in> set xs \<Longrightarrow> x mod PGSIZE = 0"
  shows "length xs \<le> 1048576"
proof -
  let ?f = "\<lambda>x::addr. unat x div 4096"
  have inj: "inj_on ?f (set xs)"
  proof (rule inj_onI)
    fix x y assume x: "x \<in> set xs" and y: "y \<in> set xs" and e: "?f x = ?f y"
    obtain kx where kx: "unat x = 4096 * kx" using aligned_mult [OF al [OF x]] by blast
    obtain ky where ky: "unat y = 4096 * ky" using aligned_mult [OF al [OF y]] by blast
    from e kx ky have "unat x = unat y" by simp
    then show "x = y" by (simp add: word_unat_eq_iff)
  qed
  have sub: "?f ` set xs \<subseteq> {..<1048576}"
  proof
    fix k assume "k \<in> ?f ` set xs"
    then obtain x :: addr where "k = unat x div 4096" by auto
    moreover have "unat x < 4294967296" by (rule unat_bound32)
    ultimately show "k \<in> {..<1048576}" by simp
  qed
  have "length xs = card (set xs)" using d by (simp add: distinct_card)
  also have "\<dots> = card (?f ` set xs)" using inj by (simp add: card_image)
  also have "\<dots> \<le> card {..<1048576::nat}" using sub by (intro card_mono) simp_all
  finally show ?thesis by simp
qed

section \<open>The counter and the length of the free list\<close>

lemma free_inv_consistent:
  assumes "free_inv L s xs"
  shows "counter_consistent s"
proof -
  from assms have "chain (mem s) (freelist s) xs" "freemem s = int (length xs)"
    by (simp_all add: free_inv_def)
  then show ?thesis by (auto simp add: counter_consistent_def chain_of_length_iff)
qed

lemma free_inv_aligned: "free_inv L s xs \<Longrightarrow> x \<in> set xs \<Longrightarrow> x mod PGSIZE = 0"
  by (simp add: free_inv_def valid_page_def)

lemma free_inv_length: "free_inv L s xs \<Longrightarrow> length xs \<le> 1048576"
  by (rule aligned_pages_count) (auto simp add: free_inv_def chain_distinct valid_page_def)

lemma free_inv_kalloc:
  assumes inv: "free_inv L s xs" and k: "kalloc L s = Returns r s'"
  shows "free_inv L s' (tl xs)"
proof (cases xs)
  case Nil
  with inv have "freelist s = 0" by (simp add: free_inv_def)
  with k have "s' = s" by (simp add: kalloc_def)
  with inv Nil show ?thesis by simp
next
  case (Cons x ys)
  with inv have h: "freelist s = x" "x \<noteq> 0" and c: "chain (mem s) (load_next (mem s) x) ys"
    by (auto simp add: free_inv_def)
  from h k have s': "s' = s\<lparr>freelist := load_next (mem s) x,
          num_free_pages := num_free_pages s - 1,
          refcount := (refcount s)(page_index L x := 1)\<rparr>"
    using kalloc_head [of s L] by auto
  from inv Cons have d: "x \<notin> set ys" using chain_distinct [of "mem s" "freelist s" xs]
    by (simp add: free_inv_def)
  have rc: "refcount s' (page_index L y) = 0" if y: "y \<in> set ys" for y
  proof -
    from y Cons have yx: "y \<in> set xs" by simp
    from d y have "y \<noteq> x" by auto
    moreover have "x mod PGSIZE = 0" "y mod PGSIZE = 0"
      using inv Cons yx by (simp_all add: free_inv_aligned)
    ultimately have "page_index L y \<noteq> page_index L x"
      using page_index_inj [of y x L] by auto
    with inv yx show ?thesis by (simp add: s' free_inv_def)
  qed
  from inv Cons have "freemem s = int (length ys) + 1" by (simp add: free_inv_def)
  then have "freemem s' = int (length ys)"
    by (simp add: s' freemem_def sint_pred)
  with inv Cons c rc show ?thesis by (simp add: free_inv_def s')
qed

lemma free_inv_kfree:
  assumes inv: "free_inv L s xs" and k: "kfree L s v = Returns u s'" and e: "kernel_end L \<noteq> 0"
  shows "\<exists>ys. free_inv L s' ys"
  using k
proof (cases rule: kfree_Returns_cases)
  case boot
  with inv show ?thesis by (simp add: free_inv_def)
next
  case last
  from last(1) e have v0: "v \<noteq> 0" by (auto simp add: valid_page_def word_le_nat_alt unat_eq_zero)
  from last(3) inv have vn: "v \<notin> set xs" by (auto simp add: free_inv_def)
  let ?s1 = "s\<lparr>refcount := (refcount s)(page_index L v := 0)\<rparr>"
  have "chain (mem ?s1) (freelist ?s1) xs" using inv by (simp add: free_inv_def)
  then have c: "chain (mem s') (freelist s') (v # xs)"
    unfolding last(4) using v0 last(1) vn inv
    by (intro chain_push) (auto simp add: valid_page_def free_inv_def)
  have "length xs \<le> 1048576" using inv by (rule free_inv_length)
  moreover have l: "freemem s = int (length xs)" using inv by (simp add: free_inv_def)
  ultimately have "freemem s < 2147483647" by simp
  then have "freemem s' = int (length (v # xs))"
    using l by (simp add: last(4) freemem_def push_page_simps sint_succ)
  moreover have "\<forall>x\<in>set (v # xs). valid_page L x \<and> refcount s' (page_index L x) = 0"
    using inv last(1) by (auto simp add: last(4) push_page_simps free_inv_def)
  moreover have "use_lock s' \<noteq> 0" using last(2) by (simp add: last(4) push_page_simps)
  ultimately have "free_inv L s' (v # xs)" using c by (simp add: free_inv_def)
  then show ?thesis by blast
next
  case shared
  have vn: "v \<notin> set xs" using shared(3) inv by (auto simp add: free_inv_def)
  have "refcount s' (page_index L x) = 0" if x: "x \<in> set xs" for x
  proof -
    from vn x have "x \<noteq> v" by auto
    moreover have "x mod PGSIZE = 0" using inv x by (rule free_inv_aligned)
    moreover have "v mod PGSIZE = 0" using shared(1) by (simp add: valid_page_def)
    ultimately have "page_index L x \<noteq> page_index L v"
      using page_index_inj [of x v L] by auto
    with inv x show ?thesis by (simp add: shared(4) free_inv_def)
  qed
  with inv have "free_inv L s' xs" by (simp add: free_inv_def shared(4) freemem_def)
  then show ?thesis by blast
qed

lemma free_inv_accessors:
  assumes inv: "free_inv L s xs" and pa: "drop_bit PGSHIFT pa \<notin> page_index L ` set xs"
  shows "free_inv L (inc_refcount s pa) xs" and "free_inv L (dec_refcount s pa) xs"
proof -
  have "page_index L x \<noteq> drop_bit PGSHIFT pa" if "x \<in> set xs" for x
    using that pa by (metis imageI)
  with inv show "free_inv L (inc_refcount s pa) xs" and "free_inv L (dec_refcount s pa) xs"
    by (simp_all add: free_inv_def inc_refcount_def dec_refcount_def freemem_def)
qed


lemma free_inv_write:
  assumes inv: "free_inv L s xs" and keep: "\<forall>x\<in>set xs. load_next m' x = load_next (mem s) x"
  shows "free_inv L (s\<lparr>mem := m'\<rparr>) xs"
proof -
  have "chain m' (freelist s) xs = chain (mem s) (freelist s) xs"
    using keep by (intro chain_frame) simp
  with inv show ?thesis by (simp add: free_inv_def freemem_def)
qed

lemma demo_free_inv:
  "free_inv xv6_layout demo_boot [0x80400000, 0x80117000, 0x80116000]"
  "free_inv xv6_layout demo_owned [0x80117000, 0x80116000]"
  by (simp_all add: free_inv_def demo_valid demo_index demo_links demo_boot_def demo_owned_def
      freemem_def)

lemma demo_double_push:
  "kfree xv6_layout (inc_refcount demo_boot 0x400000) 0x80400000 = Returns () demo_broken"
  by (simp add: kfree_def inc_refcount_def demo_boot_def demo_broken_def xv6_layout_def V2P_def
      PGSIZE_def PGSHIFT_def Let_def drop_bit_eq_div)

lemma demo_broken_loop:
  "load_next (mem demo_broken) (freelist demo_broken) = freelist demo_broken"
  by (simp add: demo_broken_def load_store_same)



section \<open>Seeding\<close>

lemma kfree_unlocked_fields:
  assumes "use_lock s = 0 \<and> refcount s = rc" and "kfree L s v = Returns () s'"
  shows "use_lock s' = 0 \<and> refcount s' = rc"
  using assms(2)
proof (cases rule: kfree_Returns_cases)
  case boot
  with assms(1) show ?thesis by (simp add: push_page_simps)
next
  case last
  with assms(1) show ?thesis by simp
next
  case shared
  with assms(1) show ?thesis by simp
qed

lemma freerange_unlocked_fields:
  assumes "use_lock s = 0" and "freerange L s a b = Some y"
  shows "use_lock (state_of y) = 0 \<and> refcount (state_of y) = refcount s"
proof -
  have run: "freerange_loop L s (PGROUNDUP a) b = Some y"
    using assms(2) by (simp add: freerange_def)
  have step: "use_lock t' = 0 \<and> refcount t' = refcount s"
    if "use_lock t = 0 \<and> refcount t = refcount s" "kfree L t v = Returns () t'" for t v t'
    using that by (rule kfree_unlocked_fields)
  from assms(1) have start: "use_lock s = 0 \<and> refcount s = refcount s" by simp
  show ?thesis
    using freerange_loop_outcome
      [where P = "\<lambda>t. use_lock t = 0 \<and> refcount t = refcount s", OF step run start]
    by simp
qed

lemma unat_plus_page:
  fixes p :: addr
  assumes "unat p + 4096 < 4294967296"
  shows "unat (p + PGSIZE) = unat p + 4096"
  using assms by (simp add: PGSIZE_def unat_plus_if_size word_size)

lemma freerange_loop_seed:
  assumes "use_lock s = 0" and "unat p + 4096 < 4294967296" and "unat e + 4096 < 4294967296"
  shows "freerange_loop L s p e = Some (seed_pages L s p (pages_between p e))"
  using assms
proof (induction "pages_between p e" arbitrary: s p)
  case 0
  then have "unat e - unat p < 4096" by (simp add: pages_between_def)
  with "0.prems"(2) have "\<not> p + PGSIZE \<le> e"
    by (simp add: word_le_nat_alt unat_plus_page)
  with 0(1) show ?case by (simp add: freerange_loop.simps [of L s p e])
next
  case (Suc n)
  from Suc(2) have big: "4096 \<le> unat e - unat p"
    by (simp add: pages_between_def)
  with Suc.prems(2) have le: "p + PGSIZE \<le> e"
    by (simp add: word_le_nat_alt unat_plus_page)
  have up: "unat (p + PGSIZE) = unat p + 4096" using Suc.prems(2) by (rule unat_plus_page)
  have next_ok: "unat (p + PGSIZE) + 4096 < 4294967296"
    using big Suc.prems(3) up by simp
  have "(unat e - unat p) div 4096 = Suc ((unat e - (unat p + 4096)) div 4096)"
    using le_div_geq [of 4096 "unat e - unat p"] big by simp
  with Suc(2) have n: "n = pages_between (p + PGSIZE) e"
    by (simp add: pages_between_def up)
  show ?case
  proof (cases "valid_page L p")
    case True
    with Suc.prems(1) have k: "kfree L s p = Returns () (push_page s p)" by (simp add: kfree_boot)
    have "freerange_loop L (push_page s p) (p + PGSIZE) e =
        Some (seed_pages L (push_page s p) (p + PGSIZE) (pages_between (p + PGSIZE) e))"
      using n Suc.prems(1,3) next_ok by (intro Suc(1)) (simp_all add: push_page_simps)
    with k le True n Suc(2) [symmetric] show ?thesis
      by (simp add: freerange_loop.simps [of L s p e])
  next
    case False
    then have "kfree L s p = Panics ''kfree'' s" by (rule kfree_invalid)
    with le False Suc(2) [symmetric] show ?thesis
      by (simp add: freerange_loop.simps [of L s p e])
  qed
qed




section \<open>What the boot leaves\<close>

lemma valid_page_nonzero: "valid_page L v \<Longrightarrow> kernel_end L \<noteq> 0 \<Longrightarrow> v \<noteq> 0"
  by (auto simp add: valid_page_def word_le_nat_alt unat_eq_zero)

lemma push_page_list:
  assumes c: "chain (mem s) (freelist s) xs"
    and val: "\<forall>x\<in>set xs. valid_page L x"
    and len: "freemem s = int (length xs)"
    and v: "valid_page L v" "v \<noteq> 0" "v \<notin> set xs"
  shows "chain (mem (push_page s v)) (freelist (push_page s v)) (v # xs) \<and>
    freemem (push_page s v) = int (length (v # xs))"
proof -
  have al: "x mod PGSIZE = 0" if "x \<in> set xs" for x
    using that val by (simp add: valid_page_def)
  have c': "chain (mem (push_page s v)) (freelist (push_page s v)) (v # xs)"
    using c v al by (intro chain_push) (auto simp add: valid_page_def)
  have "length xs \<le> 1048576"
    using chain_distinct [OF c] al by (rule aligned_pages_count)
  with len have "freemem s < 2147483647" by simp
  then have l': "freemem (push_page s v) = int (length (v # xs))"
    using len by (simp add: freemem_def push_page_simps sint_succ)
  from c' l' show ?thesis by (rule conjI)
qed

lemma page_run_bounds:
  "x \<in> set (page_run p n) \<Longrightarrow> unat p + 4096 * n < 4294967296 \<Longrightarrow>
   unat p \<le> unat x \<and> unat x + 4096 \<le> unat p + 4096 * n"
proof (induction n arbitrary: p)
  case 0
  then show ?case by simp
next
  case (Suc n)
  show ?case
  proof (cases "x = p")
    case True
    then show ?thesis by simp
  next
    case False
    with Suc.prems(1) have x: "x \<in> set (page_run (p + PGSIZE) n)" by simp
    have up: "unat (p + PGSIZE) = unat p + 4096"
      using Suc.prems(2) by (intro unat_plus_page) simp
    with Suc.prems(2) have "unat (p + PGSIZE) + 4096 * n < 4294967296" by simp
    from Suc.IH [OF x this] up show ?thesis by simp
  qed
qed

lemma seed_pages_list:
  assumes "seed_pages L s p n = Returns u t"
    and "chain (mem s) (freelist s) xs"
    and "\<forall>x\<in>set xs. valid_page L x"
    and "freemem s = int (length xs)"
    and "kernel_end L \<noteq> 0"
    and "unat p + 4096 * n < 4294967296"
    and "\<forall>x\<in>set xs. unat x < unat p \<or> unat p + 4096 * n \<le> unat x"
  shows "chain (mem t) (freelist t) (rev (page_run p n) @ xs) \<and>
    (\<forall>x\<in>set (page_run p n). valid_page L x) \<and>
    freemem t = int (length (rev (page_run p n) @ xs)) \<and>
    use_lock t = use_lock s \<and> refcount t = refcount s"
  using assms
proof (induction n arbitrary: s p xs)
  case 0
  then show ?case by simp
next
  case (Suc n)
  from Suc.prems(1) have v: "valid_page L p"
    and run: "seed_pages L (push_page s p) (p + PGSIZE) n = Returns u t"
    by (simp_all split: if_splits)
  from v Suc.prems(5) have nz: "p \<noteq> 0" by (rule valid_page_nonzero)
  have notin: "p \<notin> set xs"
  proof
    assume "p \<in> set xs"
    with Suc.prems(7) have "unat p < unat p \<or> unat p + 4096 * Suc n \<le> unat p" by blast
    then show False by simp
  qed
  have up: "unat (p + PGSIZE) = unat p + 4096"
    using Suc.prems(6) by (intro unat_plus_page) simp
  note pl = push_page_list [OF Suc.prems(2,3,4) v nz notin]
  note c' = pl [THEN conjunct1] and l' = pl [THEN conjunct2]
  have val': "\<forall>x\<in>set (p # xs). valid_page L x" using v Suc.prems(3) by simp
  have fit': "unat (p + PGSIZE) + 4096 * n < 4294967296" using up Suc.prems(6) by simp
  have apart': "\<forall>x\<in>set (p # xs).
      unat x < unat (p + PGSIZE) \<or> unat (p + PGSIZE) + 4096 * n \<le> unat x"
    using up Suc.prems(7) by auto
  from Suc.IH [OF run c' val' l' Suc.prems(5) fit' apart'] v
  show ?case by (simp add: push_page_simps)
qed

lemma pages_between_fit:
  "unat p + 4096 * pages_between p e < 4294967296"
  "x \<in> set (page_run p (pages_between p e)) \<Longrightarrow> unat p \<le> unat x \<and> unat x + 4096 \<le> unat e"
proof -
  have le: "4096 * pages_between p e \<le> unat e - unat p"
    by (simp add: pages_between_def)
  show fit: "unat p + 4096 * pages_between p e < 4294967296"
  proof (cases "pages_between p e = 0")
    case True
    then show ?thesis using unat_bound32 [of p] by simp
  next
    case False
    with le have "unat p + 4096 * pages_between p e \<le> unat e" by simp
    then show ?thesis using unat_bound32 [of e] by simp
  qed
  assume x: "x \<in> set (page_run p (pages_between p e))"
  then have "pages_between p e \<noteq> 0" by (cases "pages_between p e") auto
  with le have "unat p + 4096 * pages_between p e \<le> unat e" by simp
  with page_run_bounds [OF x fit] show "unat p \<le> unat x \<and> unat x + 4096 \<le> unat e" by simp
qed

lemma length_page_run: "length (page_run p n) = n"
  by (induction n arbitrary: p) simp_all

lemma page_run_covers:
  assumes "x mod PGSIZE = 0" and "unat p \<le> unat x" and "unat x + 4096 \<le> unat e"
    and "\<forall>y\<in>set (page_run p (pages_between p e)). y mod PGSIZE = 0"
  shows "x \<in> set (page_run p (pages_between p e))"
  using assms(2,4)
proof (induction "pages_between p e" arbitrary: p)
  case 0
  from 0(2) assms(3) have "4096 \<le> unat e - unat p" by simp
  with 0(1) show ?case by (simp add: pages_between_def)
next
  case (Suc n)
  have fit: "unat p + 4096 < 4294967296"
    using Suc.prems(1) assms(3) unat_bound32 [of e] by simp
  have up: "unat (p + PGSIZE) = unat p + 4096" using fit by (rule unat_plus_page)
  from Suc(2) have big: "4096 \<le> unat e - unat p" by (simp add: pages_between_def)
  have "(unat e - unat p) div 4096 = Suc ((unat e - (unat p + 4096)) div 4096)"
    using le_div_geq [of 4096 "unat e - unat p"] big by simp
  with Suc(2) have n: "n = pages_between (p + PGSIZE) e"
    by (simp add: pages_between_def up)
  from Suc(2) have run: "page_run p (pages_between p e) = p # page_run (p + PGSIZE) n"
    by (metis page_run.simps(2))
  show ?case
  proof (cases "x = p")
    case True
    with run show ?thesis by simp
  next
    case False
    from Suc.prems(2) run have pal: "p mod PGSIZE = 0" by simp
    obtain kp where kp: "unat p = 4096 * kp" using aligned_mult [OF pal] by blast
    obtain kx where kx: "unat x = 4096 * kx" using aligned_mult [OF assms(1)] by blast
    from False have "unat x \<noteq> unat p" by (simp add: word_unat_eq_iff)
    with Suc.prems(1) kp kx have "unat p + 4096 \<le> unat x" by simp
    then have le: "unat (p + PGSIZE) \<le> unat x" by (simp add: up)
    have al: "\<forall>y\<in>set (page_run (p + PGSIZE) (pages_between (p + PGSIZE) e)). y mod PGSIZE = 0"
      using Suc.prems(2) run n by simp
    from Suc(1) [OF n le al] n run show ?thesis by simp
  qed
qed

text \<open>
  Seeding a range that does not wrap around the address space, from a state whose free
  list is a null-terminated chain of pages outside the range: when \<open>kinit2\<close> returns, the
  free list is the chain of the pages of the range, the last page first, followed by the
  old chain.
\<close>

lemma kinit2_seeds:
  assumes u: "use_lock s = 0"
    and k: "kinit2 L s a b = Some (Returns u' s')"
    and fit: "unat (PGROUNDUP a) + 4096 < 4294967296" "unat b + 4096 < 4294967296"
    and c: "chain (mem s) (freelist s) xs"
    and val: "\<forall>x\<in>set xs. valid_page L x"
    and len: "freemem s = int (length xs)"
    and e: "kernel_end L \<noteq> 0"
    and apart: "\<forall>x\<in>set xs. unat x < unat (PGROUNDUP a) \<or> unat b \<le> unat x"
  shows "chain (mem s') (freelist s')
      (rev (page_run (PGROUNDUP a) (pages_between (PGROUNDUP a) b)) @ xs) \<and>
    (\<forall>x\<in>set (page_run (PGROUNDUP a) (pages_between (PGROUNDUP a) b)). valid_page L x) \<and>
    freemem s' = int (pages_between (PGROUNDUP a) b + length xs)"
proof -
  let ?p = "PGROUNDUP a" and ?n = "pages_between (PGROUNDUP a) b"
  from k obtain s1 where f: "freerange L s a b = Some (Returns () s1)"
    and s': "s' = s1\<lparr>use_lock := 1,
      refcount := (\<lambda>i. if i < drop_bit PGSHIFT (PHYSTOP L) then 0 else refcount s1 i)\<rparr>"
    by (rule kinit2_Returns)
  have "freerange_loop L s ?p b = Some (seed_pages L s ?p ?n)"
    using u fit by (rule freerange_loop_seed)
  with f have seed: "seed_pages L s ?p ?n = Returns () s1" by (simp add: freerange_def)
  have apart': "\<forall>x\<in>set xs. unat x < unat ?p \<or> unat ?p + 4096 * ?n \<le> unat x"
  proof
    fix x assume "x \<in> set xs"
    with apart have x: "unat x < unat ?p \<or> unat b \<le> unat x" by blast
    have "4096 * ?n \<le> unat b - unat ?p" by (simp add: pages_between_def)
    then have "?n = 0 \<or> unat ?p + 4096 * ?n \<le> unat b" by arith
    with x show "unat x < unat ?p \<or> unat ?p + 4096 * ?n \<le> unat x" by auto
  qed
  have "chain (mem s1) (freelist s1) (rev (page_run ?p ?n) @ xs) \<and>
    (\<forall>x\<in>set (page_run ?p ?n). valid_page L x) \<and>
    freemem s1 = int (length (rev (page_run ?p ?n) @ xs)) \<and>
    use_lock s1 = use_lock s \<and> refcount s1 = refcount s"
    using seed c val len e pages_between_fit(1) [of ?p b] apart'
    by (rule seed_pages_list)
  then show ?thesis by (simp add: s' freemem_def length_page_run)
qed

text \<open>
  C6. Let \<open>kinit2\<close> be called with locking off, as \<open>kinit1\<close> leaves it. The seeding comes
  first and runs with \<open>use_lock\<close> at 0 and without touching the table of counts, however it
  ends; over a range that does not wrap around the address space it is exactly a row of
  pushes through the unlocked free path, one for each whole page of the range. If the
  seeding panics or does not end, so does \<open>kinit2\<close>, and nothing else has happened. If the
  seeding returns, \<open>kinit2\<close> returns the state the seeding left with \<open>use_lock\<close> set to 1 and
  every entry of the table below \<open>PHYSTOP >> PGSHIFT\<close> set to 0: the free list, the memory
  and the counter are those the seeding left. When the range does not wrap around and the
  free list at the call is a null-terminated chain of counted pages outside the range, the
  free list \<open>kinit2\<close> returns is the chain of the pages of the range, last page first,
  followed by the old chain; \<open>freemem\<close> has grown by the number of these pages; each of
  them has passed the check of \<open>kfree\<close>; and every page-aligned address whose page lies
  between the rounded start and the end of the range is among them.
\<close>

theorem kinit2_order:
  assumes "use_lock s = 0"
  shows
    "(\<forall>y. freerange L s a b = Some y \<longrightarrow>
        use_lock (state_of y) = 0 \<and> refcount (state_of y) = refcount s) \<and>
     (\<forall>s1. freerange L s a b = Some (Returns () s1) \<longrightarrow>
        kinit2 L s a b =
          Some (Returns ()
            (s1\<lparr>use_lock := 1,
                refcount := (\<lambda>i. if i < drop_bit PGSHIFT (PHYSTOP L) then 0 else refcount s1 i)\<rparr>))) \<and>
     (\<forall>u s'. kinit2 L s a b = Some (Returns u s') \<longrightarrow>
        use_lock s' = 1 \<and> (\<forall>i. i < drop_bit PGSHIFT (PHYSTOP L) \<longrightarrow> refcount s' i = 0) \<and>
        (\<exists>s1. freerange L s a b = Some (Returns () s1) \<and> freelist s' = freelist s1 \<and>
           mem s' = mem s1 \<and> num_free_pages s' = num_free_pages s1)) \<and>
     (\<forall>msg t. freerange L s a b = Some (Panics msg t) \<longrightarrow>
        kinit2 L s a b = Some (Panics msg t)) \<and>
     (freerange L s a b = None \<longrightarrow> kinit2 L s a b = None) \<and>
     (unat (PGROUNDUP a) + 4096 < 4294967296 \<and> unat b + 4096 < 4294967296 \<longrightarrow>
        freerange L s a b =
          Some (seed_pages L s (PGROUNDUP a) (pages_between (PGROUNDUP a) b))) \<and>
     (unat (PGROUNDUP a) + 4096 < 4294967296 \<and> unat b + 4096 < 4294967296 \<and>
      kernel_end L \<noteq> 0 \<and>
      chain (mem s) (freelist s) xs \<and> (\<forall>x\<in>set xs. valid_page L x) \<and>
      freemem s = int (length xs) \<and>
      (\<forall>x\<in>set xs. unat x < unat (PGROUNDUP a) \<or> unat b \<le> unat x) \<longrightarrow>
        (\<forall>u s'. kinit2 L s a b = Some (Returns u s') \<longrightarrow>
           chain (mem s') (freelist s')
             (rev (page_run (PGROUNDUP a) (pages_between (PGROUNDUP a) b)) @ xs) \<and>
           (\<forall>x\<in>set (page_run (PGROUNDUP a) (pages_between (PGROUNDUP a) b)).
              valid_page L x) \<and>
           freemem s' = int (pages_between (PGROUNDUP a) b + length xs) \<and>
           (\<forall>x. x mod PGSIZE = 0 \<and> unat (PGROUNDUP a) \<le> unat x \<and> unat x + 4096 \<le> unat b
              \<longrightarrow> x \<in> set (page_run (PGROUNDUP a) (pages_between (PGROUNDUP a) b)))))"
proof (intro conjI allI impI)
  fix y assume "freerange L s a b = Some y"
  with assms have "use_lock (state_of y) = 0 \<and> refcount (state_of y) = refcount s"
    by (rule freerange_unlocked_fields)
  then show "use_lock (state_of y) = 0" and "refcount (state_of y) = refcount s" by simp_all
next
  fix s1 assume "freerange L s a b = Some (Returns () s1)"
  then show "kinit2 L s a b =
      Some (Returns ()
        (s1\<lparr>use_lock := 1,
            refcount := (\<lambda>i. if i < drop_bit PGSHIFT (PHYSTOP L) then 0 else refcount s1 i)\<rparr>))"
    by (simp add: kinit2_def)
next
  fix u s' assume k: "kinit2 L s a b = Some (Returns u s')"
  then obtain s1 where s1: "freerange L s a b = Some (Returns () s1)"
    and s': "s' = s1\<lparr>use_lock := 1,
      refcount := (\<lambda>i. if i < drop_bit PGSHIFT (PHYSTOP L) then 0 else refcount s1 i)\<rparr>"
    by (rule kinit2_Returns)
  from s' show "use_lock s' = 1" by simp
  from s' show "refcount s' i = 0" if "i < drop_bit PGSHIFT (PHYSTOP L)" for i
    using that by simp
  from s1 s' show "\<exists>s1. freerange L s a b = Some (Returns () s1) \<and> freelist s' = freelist s1 \<and>
           mem s' = mem s1 \<and> num_free_pages s' = num_free_pages s1"
    by simp
next
  fix msg t assume "freerange L s a b = Some (Panics msg t)"
  then show "kinit2 L s a b = Some (Panics msg t)" by (simp add: kinit2_def)
next
  assume "freerange L s a b = None"
  then show "kinit2 L s a b = None" by (simp add: kinit2_def)
next
  assume "unat (PGROUNDUP a) + 4096 < 4294967296 \<and> unat b + 4096 < 4294967296"
  with assms show "freerange L s a b =
      Some (seed_pages L s (PGROUNDUP a) (pages_between (PGROUNDUP a) b))"
    by (simp add: freerange_def freerange_loop_seed)
next
  fix u s'
  assume h: "unat (PGROUNDUP a) + 4096 < 4294967296 \<and> unat b + 4096 < 4294967296 \<and>
      kernel_end L \<noteq> 0 \<and>
      chain (mem s) (freelist s) xs \<and> (\<forall>x\<in>set xs. valid_page L x) \<and>
      freemem s = int (length xs) \<and>
      (\<forall>x\<in>set xs. unat x < unat (PGROUNDUP a) \<or> unat b \<le> unat x)"
    and k: "kinit2 L s a b = Some (Returns u s')"
  have r: "chain (mem s') (freelist s')
      (rev (page_run (PGROUNDUP a) (pages_between (PGROUNDUP a) b)) @ xs) \<and>
    (\<forall>x\<in>set (page_run (PGROUNDUP a) (pages_between (PGROUNDUP a) b)). valid_page L x) \<and>
    freemem s' = int (pages_between (PGROUNDUP a) b + length xs)"
  proof (rule kinit2_seeds [OF assms k])
    from h show "unat (PGROUNDUP a) + 4096 < 4294967296" by (rule conjunct1)
    from h show "unat b + 4096 < 4294967296" by blast
    from h show "chain (mem s) (freelist s) xs" by blast
    from h show "\<forall>x\<in>set xs. valid_page L x" by blast
    from h show "freemem s = int (length xs)" by blast
    from h show "kernel_end L \<noteq> 0" by blast
    from h show "\<forall>x\<in>set xs. unat x < unat (PGROUNDUP a) \<or> unat b \<le> unat x" by blast
  qed
  from r show "chain (mem s') (freelist s')
      (rev (page_run (PGROUNDUP a) (pages_between (PGROUNDUP a) b)) @ xs)" by simp
  from r show "\<forall>x\<in>set (page_run (PGROUNDUP a) (pages_between (PGROUNDUP a) b)).
      valid_page L x" by simp
  from r show "freemem s' = int (pages_between (PGROUNDUP a) b + length xs)" by simp
  from r have al: "\<forall>y\<in>set (page_run (PGROUNDUP a) (pages_between (PGROUNDUP a) b)).
      y mod PGSIZE = 0"
    by (simp add: valid_page_def)
  show "x \<in> set (page_run (PGROUNDUP a) (pages_between (PGROUNDUP a) b))"
    if "x mod PGSIZE = 0 \<and> unat (PGROUNDUP a) \<le> unat x \<and> unat x + 4096 \<le> unat b" for x
    using that al by (intro page_run_covers) simp_all
qed

theorem kinit2_order_witness:
  "use_lock demo_phase1 = 0 \<and>
   unat (PGROUNDUP 0x80400000) + 4096 < 4294967296 \<and>
   unat (0x80401000 :: addr) + 4096 < 4294967296 \<and>
   (0x400 :: addr) < drop_bit PGSHIFT (PHYSTOP xv6_layout) \<and>
   seed_pages xv6_layout demo_phase1 (PGROUNDUP 0x80400000)
     (pages_between (PGROUNDUP 0x80400000) 0x80401000) = Returns () (push_page demo_phase1 0x80400000) \<and>
   freerange xv6_layout demo_phase1 0x80400000 0x80401000 =
     Some (Returns () (push_page demo_phase1 0x80400000)) \<and>
   use_lock (push_page demo_phase1 0x80400000) = 0 \<and>
   kinit2 xv6_layout demo_phase1 0x80400000 0x80401000 = Some (Returns () demo_boot) \<and>
   use_lock demo_boot = 1 \<and> refcount demo_boot 0x400 = 0 \<and>
   kernel_end xv6_layout \<noteq> 0 \<and>
   chain (mem demo_phase1) (freelist demo_phase1) [0x80117000, 0x80116000] \<and>
   valid_page xv6_layout 0x80117000 \<and> valid_page xv6_layout 0x80116000 \<and>
   freemem demo_phase1 = 2 \<and>
   unat (0x80117000 :: addr) < unat (PGROUNDUP 0x80400000) \<and>
   unat (0x80116000 :: addr) < unat (PGROUNDUP 0x80400000) \<and>
   page_run (PGROUNDUP 0x80400000) (pages_between (PGROUNDUP 0x80400000) 0x80401000) =
     [0x80400000] \<and>
   chain (mem demo_boot) (freelist demo_boot) [0x80400000, 0x80117000, 0x80116000] \<and>
   load_next (mem demo_boot) 0x80400000 = 0x80117000 \<and>
   freemem demo_boot = 3 \<and>
   (0x80400000 :: addr) mod PGSIZE = 0 \<and>
   unat (PGROUNDUP 0x80400000) \<le> unat (0x80400000 :: addr) \<and>
   unat (0x80400000 :: addr) + 4096 \<le> unat (0x80401000 :: addr) \<and>
   (0x80400000 :: addr) \<in> set (page_run (PGROUNDUP 0x80400000)
      (pages_between (PGROUNDUP 0x80400000) 0x80401000))"
proof -
  have u: "use_lock demo_phase1 = 0" by (simp add: demo_phase1_def)
  note w = kinit2_order
    [OF u, of xv6_layout "0x80400000" "0x80401000" "[0x80117000, 0x80116000]"]
  have r: "PGROUNDUP 0x80400000 = 0x80400000" by (simp add: PGROUNDUP_def PGSIZE_def)
  have b: "unat (PGROUNDUP 0x80400000) + 4096 < 4294967296"
    "unat (0x80401000 :: addr) + 4096 < 4294967296"
    by (simp_all add: r)
  have n: "pages_between 0x80400000 0x80401000 = Suc 0"
    by (simp add: pages_between_def)
  have pr: "page_run (PGROUNDUP 0x80400000) (pages_between (PGROUNDUP 0x80400000) 0x80401000) =
      [0x80400000]"
    by (simp add: r n)
  have sd: "seed_pages xv6_layout demo_phase1 (PGROUNDUP 0x80400000)
     (pages_between (PGROUNDUP 0x80400000) 0x80401000) = Returns () (push_page demo_phase1 0x80400000)"
    by (simp add: n r demo_valid)
  from w b sd have f: "freerange xv6_layout demo_phase1 0x80400000 0x80401000 =
     Some (Returns () (push_page demo_phase1 0x80400000))"
    by simp
  from w f have "use_lock (state_of (Returns () (push_page demo_phase1 0x80400000))) = 0"
    by blast
  then have u': "use_lock (push_page demo_phase1 0x80400000) = 0" by simp
  have i: "(0x400 :: addr) < drop_bit PGSHIFT (PHYSTOP xv6_layout)"
    by (simp add: xv6_layout_def PGSHIFT_def drop_bit_eq_div)
  from w demo_kinit2 have "use_lock demo_boot = 1 \<and>
      (\<forall>i. i < drop_bit PGSHIFT (PHYSTOP xv6_layout) \<longrightarrow> refcount demo_boot i = 0)"
    by blast
  with i have fl: "use_lock demo_boot = 1" "refcount demo_boot 0x400 = 0" by blast+
  have e: "kernel_end xv6_layout \<noteq> 0" by (simp add: xv6_layout_def)
  have c0: "chain (mem demo_phase1) (freelist demo_phase1) [0x80117000, 0x80116000]"
    by (simp add: demo_phase1_def demo_mem1_def load_next_def store_next_def memset_def
        PGSIZE_def)
  have v: "valid_page xv6_layout 0x80117000" "valid_page xv6_layout 0x80116000"
    by (simp_all add: demo_valid)
  have fm: "freemem demo_phase1 = 2" by (simp add: freemem_def demo_phase1_def)
  have ap: "unat (0x80117000 :: addr) < unat (PGROUNDUP 0x80400000)"
    "unat (0x80116000 :: addr) < unat (PGROUNDUP 0x80400000)"
    by (simp_all add: r)
  have hyp: "unat (PGROUNDUP 0x80400000) + 4096 < 4294967296 \<and>
      unat (0x80401000 :: addr) + 4096 < 4294967296 \<and>
      kernel_end xv6_layout \<noteq> 0 \<and>
      chain (mem demo_phase1) (freelist demo_phase1) [0x80117000, 0x80116000] \<and>
      (\<forall>x\<in>set [0x80117000 :: addr, 0x80116000]. valid_page xv6_layout x) \<and>
      freemem demo_phase1 = int (length [0x80117000 :: addr, 0x80116000]) \<and>
      (\<forall>x\<in>set [0x80117000 :: addr, 0x80116000].
         unat x < unat (PGROUNDUP 0x80400000) \<or> unat (0x80401000 :: addr) \<le> unat x)"
  proof (intro conjI)
    show "\<forall>x\<in>set [0x80117000 :: addr, 0x80116000]. valid_page xv6_layout x"
      using v by simp
    show "freemem demo_phase1 = int (length [0x80117000 :: addr, 0x80116000])"
      using fm by simp
    show "\<forall>x\<in>set [0x80117000 :: addr, 0x80116000].
         unat x < unat (PGROUNDUP 0x80400000) \<or> unat (0x80401000 :: addr) \<le> unat x"
      using ap by simp
  qed (rule b e c0)+
  note w7 = w [THEN conjunct2, THEN conjunct2, THEN conjunct2, THEN conjunct2,
    THEN conjunct2, THEN conjunct2]
  from w7 hyp have "\<forall>u s'. kinit2 xv6_layout demo_phase1 0x80400000 0x80401000 =
      Some (Returns u s') \<longrightarrow>
        chain (mem s') (freelist s')
          (rev (page_run (PGROUNDUP 0x80400000)
             (pages_between (PGROUNDUP 0x80400000) 0x80401000)) @ [0x80117000, 0x80116000]) \<and>
        (\<forall>x\<in>set (page_run (PGROUNDUP 0x80400000)
           (pages_between (PGROUNDUP 0x80400000) 0x80401000)). valid_page xv6_layout x) \<and>
        freemem s' =
          int (pages_between (PGROUNDUP 0x80400000) 0x80401000 +
            length [0x80117000 :: addr, 0x80116000]) \<and>
        (\<forall>x. x mod PGSIZE = 0 \<and> unat (PGROUNDUP 0x80400000) \<le> unat x \<and>
           unat x + 4096 \<le> unat (0x80401000 :: addr) \<longrightarrow>
           x \<in> set (page_run (PGROUNDUP 0x80400000)
             (pages_between (PGROUNDUP 0x80400000) 0x80401000)))"
    by (rule mp)
  note res = this [rule_format, OF demo_kinit2]
  have g: "(0x80400000 :: addr) mod PGSIZE = 0"
    "unat (PGROUNDUP 0x80400000) \<le> unat (0x80400000 :: addr)"
    "unat (0x80400000 :: addr) + 4096 \<le> unat (0x80401000 :: addr)"
    by (simp_all add: r PGSIZE_def)
  from g have gc: "(0x80400000 :: addr) mod PGSIZE = 0 \<and>
      unat (PGROUNDUP 0x80400000) \<le> unat (0x80400000 :: addr) \<and>
      unat (0x80400000 :: addr) + 4096 \<le> unat (0x80401000 :: addr)"
    by (intro conjI)
  have inrun: "(0x80400000 :: addr) \<in> set (page_run (PGROUNDUP 0x80400000)
      (pages_between (PGROUNDUP 0x80400000) 0x80401000))"
    by (rule res [THEN conjunct2, THEN conjunct2, THEN conjunct2, rule_format, OF gc])
  have ch: "chain (mem demo_boot) (freelist demo_boot)
      [0x80400000, 0x80117000, 0x80116000]"
    using res [THEN conjunct1] by (simp only: pr rev.simps append.simps)
  then have ln: "load_next (mem demo_boot) 0x80400000 = 0x80117000" by auto
  have fb: "freemem demo_boot = 3"
    using res [THEN conjunct2, THEN conjunct2, THEN conjunct1] by (simp add: r n)
  show ?thesis
    using u b i sd f u' demo_kinit2 fl e c0 v fm ap pr ch ln fb g inrun
    by (intro conjI) (assumption | simp)+
qed

text \<open>
  A boot over two ranges that do not wrap around the address space, the first below the
  second, leaves the free list a chain of the pages of both ranges, each with reference
  count 0, and the counter at their number.
\<close>

lemma boot_free_inv:
  assumes k1: "kinit1 L (boot_state m) a b = Some (Returns () s1)"
    and k2: "kinit2 L s1 c d = Some (Returns () s2)"
    and fit: "unat (PGROUNDUP a) + 4096 < 4294967296" "unat b + 4096 < 4294967296"
      "unat (PGROUNDUP c) + 4096 < 4294967296" "unat d + 4096 < 4294967296"
    and apart: "unat b \<le> unat (PGROUNDUP c)"
    and e: "kernel_end L \<noteq> 0"
  shows "free_inv L s2
    (rev (page_run (PGROUNDUP c) (pages_between (PGROUNDUP c) d)) @
     rev (page_run (PGROUNDUP a) (pages_between (PGROUNDUP a) b)))"
proof -
  let ?p1 = "PGROUNDUP a" and ?p2 = "PGROUNDUP c"
  let ?n1 = "pages_between (PGROUNDUP a) b" and ?n2 = "pages_between (PGROUNDUP c) d"
  let ?s0 = "boot_state m"
  have s0: "?s0\<lparr>use_lock := 0\<rparr> = ?s0" by (simp add: boot_state_def)
  have "freerange_loop L ?s0 ?p1 b = Some (seed_pages L ?s0 ?p1 ?n1)"
    using fit(1,2) by (intro freerange_loop_seed) (simp_all add: boot_state_def)
  with k1 have seed1: "seed_pages L ?s0 ?p1 ?n1 = Returns () s1"
    by (simp add: kinit1_def freerange_def s0)
  have r1: "chain (mem s1) (freelist s1) (rev (page_run ?p1 ?n1) @ []) \<and>
    (\<forall>x\<in>set (page_run ?p1 ?n1). valid_page L x) \<and>
    freemem s1 = int (length (rev (page_run ?p1 ?n1) @ [])) \<and>
    use_lock s1 = use_lock ?s0 \<and> refcount s1 = refcount ?s0"
    using seed1 e pages_between_fit(1) [of ?p1 b]
    by (intro seed_pages_list) (simp_all add: boot_state_def freemem_def)
  then have u1: "use_lock s1 = 0" and rc1: "refcount s1 i = 0" for i
    by (simp_all add: boot_state_def)
  from k2 obtain s1' where f2: "freerange L s1 c d = Some (Returns () s1')"
    and s2: "s2 = s1'\<lparr>use_lock := 1,
      refcount := (\<lambda>i. if i < drop_bit PGSHIFT (PHYSTOP L) then 0 else refcount s1' i)\<rparr>"
    by (rule kinit2_Returns)
  have "freerange_loop L s1 ?p2 d = Some (seed_pages L s1 ?p2 ?n2)"
    using u1 fit(3,4) by (intro freerange_loop_seed) simp_all
  with f2 have seed2: "seed_pages L s1 ?p2 ?n2 = Returns () s1'"
    by (simp add: freerange_def)
  have below: "\<forall>x\<in>set (rev (page_run ?p1 ?n1)).
      unat x < unat ?p2 \<or> unat ?p2 + 4096 * ?n2 \<le> unat x"
  proof
    fix x assume "x \<in> set (rev (page_run ?p1 ?n1))"
    then have "x \<in> set (page_run ?p1 ?n1)" by simp
    then have "unat x + 4096 \<le> unat b" using pages_between_fit(2) by blast
    with apart show "unat x < unat ?p2 \<or> unat ?p2 + 4096 * ?n2 \<le> unat x" by simp
  qed
  have r2: "chain (mem s1') (freelist s1') (rev (page_run ?p2 ?n2) @ rev (page_run ?p1 ?n1)) \<and>
    (\<forall>x\<in>set (page_run ?p2 ?n2). valid_page L x) \<and>
    freemem s1' = int (length (rev (page_run ?p2 ?n2) @ rev (page_run ?p1 ?n1))) \<and>
    use_lock s1' = use_lock s1 \<and> refcount s1' = refcount s1"
    using seed2 r1 e pages_between_fit(1) [of ?p2 d] below
    by (intro seed_pages_list) simp_all
  then have rc2: "refcount s2 i = 0" for i by (simp add: s2 rc1)
  from r2 have "chain (mem s2) (freelist s2)
      (rev (page_run ?p2 ?n2) @ rev (page_run ?p1 ?n1))"
    by (simp add: s2)
  moreover from r2 have "freemem s2 = int (length (rev (page_run ?p2 ?n2) @ rev (page_run ?p1 ?n1)))"
    by (simp add: s2 freemem_def)
  moreover have "use_lock s2 \<noteq> 0" by (simp add: s2)
  moreover from r1 r2 have
    "\<forall>x\<in>set (rev (page_run ?p2 ?n2) @ rev (page_run ?p1 ?n1)). valid_page L x" by auto
  ultimately show ?thesis unfolding free_inv_def using rc2 by blast
qed

section \<open>The counter and the free list, from the boot on\<close>

text \<open>
  C1, as stated, fails. The boot leaves a state in which \<open>freemem\<close> is the length of the
  free list; \<open>inc_refcount\<close> on the page at the head of the free list keeps that; the
  \<open>kfree\<close> of this page that follows returns and links the page to itself, so the free list
  no longer ends, while the counter goes to 4.
\<close>

theorem counter_consistency_counterexample:
  "kinit1 xv6_layout (boot_state (\<lambda>_. 0)) 0x801154a8 0x80118000 = Some (Returns () demo_phase1) \<and>
   kinit2 xv6_layout demo_phase1 0x80400000 0x80401000 = Some (Returns () demo_boot) \<and>
   counter_consistent demo_boot \<and>
   counter_consistent (inc_refcount demo_boot 0x400000) \<and>
   kfree xv6_layout (inc_refcount demo_boot 0x400000) 0x80400000 = Returns () demo_broken \<and>
   freemem demo_broken = 4 \<and>
   \<not> counter_consistent demo_broken"
proof -
  have c: "counter_consistent demo_boot"
    using demo_free_inv(1) by (rule free_inv_consistent)
  then have ci: "counter_consistent (inc_refcount demo_boot 0x400000)"
    by (simp add: counter_consistent_def inc_refcount_def freemem_def)
  have f: "freemem demo_broken = 4" by (simp add: freemem_def demo_broken_def)
  have h: "freelist demo_broken \<noteq> 0" by (simp add: demo_broken_def)
  have "\<not> chain_of_length (mem demo_broken) (freelist demo_broken) n" for n
    by (induction n) (simp_all add: h demo_broken_loop)
  then have "\<not> counter_consistent demo_broken" by (simp add: counter_consistent_def)
  with c ci f demo_kinit1 demo_kinit2 demo_double_push show ?thesis by simp
qed

text \<open>
  C1, amended. Let the kernel image end above address 0. A boot that returns, over two
  ranges that do not wrap around the address space, the first below the second, leaves a
  state with locking on in which the free list is a null-terminated chain of pages that
  passed the check of \<open>kfree\<close>, each with reference count 0, and \<open>freemem\<close> is the length
  of that chain. In every such state \<open>freemem\<close> is the length of the free list, and every
  \<open>kalloc\<close> and every \<open>kfree\<close> that returns leads to a state of the same kind, as do
  \<open>inc_refcount\<close> and \<open>dec_refcount\<close> on a page that is not on the free list, and every
  write to the memory that keeps the \<open>next\<close> fields of the pages on the free list.
  \<open>inc_refcount\<close> and \<open>dec_refcount\<close> on any page leave the counter and the free list as
  they are.
\<close>

theorem counter_consistency_preserved:
  assumes "kernel_end L \<noteq> 0"
  shows
    "(kinit1 L (boot_state m) a b = Some (Returns () s1) \<and>
      kinit2 L s1 c d = Some (Returns () s) \<and>
      unat (PGROUNDUP a) + 4096 < 4294967296 \<and> unat b + 4096 < 4294967296 \<and>
      unat (PGROUNDUP c) + 4096 < 4294967296 \<and> unat d + 4096 < 4294967296 \<and>
      unat b \<le> unat (PGROUNDUP c)
      \<longrightarrow> (\<exists>ys. free_inv L s ys)) \<and>
     (free_inv L s xs \<longrightarrow>
        counter_consistent s \<and>
        (\<forall>r s'. kalloc L s = Returns r s' \<longrightarrow> free_inv L s' (tl xs) \<and> counter_consistent s') \<and>
        (\<forall>v s'. kfree L s v = Returns () s' \<longrightarrow>
           (\<exists>ys. free_inv L s' ys) \<and> counter_consistent s') \<and>
        (\<forall>pa. drop_bit PGSHIFT pa \<notin> page_index L ` set xs \<longrightarrow>
           free_inv L (inc_refcount s pa) xs \<and> free_inv L (dec_refcount s pa) xs) \<and>
        (\<forall>pa. counter_consistent (inc_refcount s pa) \<and>
           counter_consistent (dec_refcount s pa)) \<and>
        (\<forall>m'. (\<forall>x\<in>set xs. load_next m' x = load_next (mem s) x) \<longrightarrow>
           free_inv L (s\<lparr>mem := m'\<rparr>) xs))"
proof (intro conjI impI)
  assume "kinit1 L (boot_state m) a b = Some (Returns () s1) \<and>
      kinit2 L s1 c d = Some (Returns () s) \<and>
      unat (PGROUNDUP a) + 4096 < 4294967296 \<and> unat b + 4096 < 4294967296 \<and>
      unat (PGROUNDUP c) + 4096 < 4294967296 \<and> unat d + 4096 < 4294967296 \<and>
      unat b \<le> unat (PGROUNDUP c)"
  then have "free_inv L s
    (rev (page_run (PGROUNDUP c) (pages_between (PGROUNDUP c) d)) @
     rev (page_run (PGROUNDUP a) (pages_between (PGROUNDUP a) b)))"
    using assms by (intro boot_free_inv [of L m a b s1 c d s]) simp_all
  then show "\<exists>ys. free_inv L s ys" by blast
next
  assume inv: "free_inv L s xs"
  then show c: "counter_consistent s" by (rule free_inv_consistent)
  show "\<forall>r s'. kalloc L s = Returns r s' \<longrightarrow> free_inv L s' (tl xs) \<and> counter_consistent s'"
    using free_inv_kalloc [OF inv] free_inv_consistent by blast
  show "\<forall>v s'. kfree L s v = Returns () s' \<longrightarrow>
      (\<exists>ys. free_inv L s' ys) \<and> counter_consistent s'"
    using free_inv_kfree [OF inv _ assms] free_inv_consistent by blast
  show "\<forall>pa. drop_bit PGSHIFT pa \<notin> page_index L ` set xs \<longrightarrow>
      free_inv L (inc_refcount s pa) xs \<and> free_inv L (dec_refcount s pa) xs"
    using free_inv_accessors [OF inv] by blast
  show "\<forall>pa. counter_consistent (inc_refcount s pa) \<and> counter_consistent (dec_refcount s pa)"
    using c by (simp add: counter_consistent_def inc_refcount_def dec_refcount_def freemem_def)
  show "\<forall>m'. (\<forall>x\<in>set xs. load_next m' x = load_next (mem s) x) \<longrightarrow>
      free_inv L (s\<lparr>mem := m'\<rparr>) xs"
    using free_inv_write [OF inv] by blast
qed

theorem counter_consistency_preserved_witness:
  "kernel_end xv6_layout \<noteq> 0 \<and>
   kinit1 xv6_layout (boot_state (\<lambda>_. 0)) 0x801154a8 0x80118000 = Some (Returns () demo_phase1) \<and>
   kinit2 xv6_layout demo_phase1 0x80400000 0x80401000 = Some (Returns () demo_boot) \<and>
   unat (PGROUNDUP 0x801154a8) + 4096 < 4294967296 \<and>
   unat (0x80118000 :: addr) + 4096 < 4294967296 \<and>
   unat (PGROUNDUP 0x80400000) + 4096 < 4294967296 \<and>
   unat (0x80401000 :: addr) + 4096 < 4294967296 \<and>
   unat (0x80118000 :: addr) \<le> unat (PGROUNDUP 0x80400000) \<and>
   (\<exists>ys. free_inv xv6_layout demo_boot ys) \<and>
   free_inv xv6_layout demo_boot [0x80400000, 0x80117000, 0x80116000] \<and>
   free_inv xv6_layout demo_owned [0x80117000, 0x80116000] \<and>
   counter_consistent demo_boot \<and>
   kalloc xv6_layout demo_boot = Returns 0x80400000 demo_owned \<and>
   counter_consistent demo_owned \<and>
   (\<exists>s'. kfree xv6_layout demo_owned 0x80400000 = Returns () s' \<and> counter_consistent s') \<and>
   drop_bit PGSHIFT (0x400000 :: addr) \<notin> page_index xv6_layout ` set [0x80117000, 0x80116000] \<and>
   free_inv xv6_layout (inc_refcount demo_owned 0x400000) [0x80117000, 0x80116000] \<and>
   free_inv xv6_layout (dec_refcount demo_owned 0x400000) [0x80117000, 0x80116000] \<and>
   load_next ((mem demo_owned)(0x80400020 := 7)) 0x80117000 =
     load_next (mem demo_owned) 0x80117000 \<and>
   load_next ((mem demo_owned)(0x80400020 := 7)) 0x80116000 =
     load_next (mem demo_owned) 0x80116000 \<and>
   free_inv xv6_layout (demo_owned\<lparr>mem := (mem demo_owned)(0x80400020 := 7)\<rparr>)
     [0x80117000, 0x80116000]"
proof -
  have e: "kernel_end xv6_layout \<noteq> 0" by (simp add: xv6_layout_def)
  note w1 = counter_consistency_preserved
    [OF e, of "\<lambda>_. 0" "0x801154a8" "0x80118000" demo_phase1 "0x80400000" "0x80401000" demo_boot
      "[0x80400000, 0x80117000, 0x80116000]"]
  note w2 = counter_consistency_preserved
    [OF e, of "\<lambda>_. 0" 0 0 demo_phase1 0 0 demo_owned "[0x80117000, 0x80116000]"]
  have b: "unat (PGROUNDUP 0x801154a8) + 4096 < 4294967296"
    "unat (0x80118000 :: addr) + 4096 < 4294967296"
    "unat (PGROUNDUP 0x80400000) + 4096 < 4294967296"
    "unat (0x80401000 :: addr) + 4096 < 4294967296"
    "unat (0x80118000 :: addr) \<le> unat (PGROUNDUP 0x80400000)"
    by (simp_all add: PGROUNDUP_def PGSIZE_def)
  from w1 demo_kinit1 demo_kinit2 b have boot: "\<exists>ys. free_inv xv6_layout demo_boot ys"
    by blast
  have n: "drop_bit PGSHIFT (0x400000 :: addr) \<notin> page_index xv6_layout ` set [0x80117000, 0x80116000]"
    by (simp add: demo_index PGSHIFT_def drop_bit_eq_div)
  obtain s' where k: "kfree xv6_layout demo_owned 0x80400000 = Returns () s'"
    using free_then_alloc [of xv6_layout "0x80400000" demo_owned] demo_owned_count demo_valid(3)
    by (auto simp add: get_refcount_V2P)
  from w1 demo_free_inv(1) have c1: "counter_consistent demo_boot" by blast
  from w1 demo_free_inv(1) demo_kalloc have c2: "counter_consistent demo_owned" by blast
  from w2 demo_free_inv(2) k have c3: "counter_consistent s'" by blast
  from w2 demo_free_inv(2) n have c4:
    "free_inv xv6_layout (inc_refcount demo_owned 0x400000) [0x80117000, 0x80116000] \<and>
     free_inv xv6_layout (dec_refcount demo_owned 0x400000) [0x80117000, 0x80116000]"
    by blast
  from k c3 have c3': "\<exists>s'. kfree xv6_layout demo_owned 0x80400000 = Returns () s' \<and>
      counter_consistent s'" by blast
  have wr': "load_next ((mem demo_owned)(0x80400020 := 7)) 0x80117000 =
      load_next (mem demo_owned) 0x80117000"
    "load_next ((mem demo_owned)(0x80400020 := 7)) 0x80116000 =
      load_next (mem demo_owned) 0x80116000"
    by (simp_all add: load_next_def)
  then have wr: "\<forall>x\<in>set [0x80117000, 0x80116000].
      load_next ((mem demo_owned)(0x80400020 := 7)) x = load_next (mem demo_owned) x"
    by simp
  from w2 demo_free_inv(2) wr have c5:
    "free_inv xv6_layout (demo_owned\<lparr>mem := (mem demo_owned)(0x80400020 := 7)\<rparr>)
       [0x80117000, 0x80116000]"
    by blast
  show ?thesis
    using e demo_kinit1 demo_kinit2 b boot demo_free_inv c1 demo_kalloc c2 c3' n c4 wr' c5
    by (intro conjI) (assumption | simp)+
qed

end
